theory Spec2Isabelle
  imports Main "HOL-Library.Word" "HOL-Library.Sublist"
begin

unbundle bit_operations_syntax

section \<open>Data model\<close>

text \<open>
  A \<^verbatim>\<open>char\<close> of a \<^verbatim>\<open>std::string\<close> is an 8-bit unit and a \<^verbatim>\<open>wchar_t\<close> of a
  \<^verbatim>\<open>std::wstring\<close> is a 16-bit unit (Windows).  The code converts every \<^verbatim>\<open>char\<close> to
  \<^verbatim>\<open>unsigned char\<close> before it looks at its bits, so a byte is an unsigned 8-bit word.
\<close>

type_synonym byte = "8 word"
type_synonym wchar = "16 word"
type_synonym DWORD = "32 word"

text \<open>
  The failures of the code: the exception \<^verbatim>\<open>U8ConversionError\<close> with its message, and a
  failed \<^verbatim>\<open>assert\<close>.
\<close>

datatype error = U8ConversionError string | AssertionFailed

section \<open>The sequence classifier\<close>

text \<open>
  \<^verbatim>\<open>num_succeeding_bytes\<close>: a \<^verbatim>\<open>switch\<close> on \<^verbatim>\<open>c >> 5\<close>.  The cases 4 and 5 and the
  default case are \<^verbatim>\<open>assert(false)\<close>: the model is the build with assertions, where they
  end the program (with \<^verbatim>\<open>NDEBUG\<close> they return 0 and \<^verbatim>\<open>unsigned(-1)\<close>).  In case 7 the
  code tests \<^verbatim>\<open>c & (1 << 5)\<close>.
\<close>

definition num_succeeding_bytes :: "byte \<Rightarrow> error + nat" where
  "num_succeeding_bytes c =
     (let k = drop_bit 5 c in
      if k = 0 \<or> k = 1 \<or> k = 2 \<or> k = 3 then Inr 0
      else if k = 4 \<or> k = 5 then Inl AssertionFailed
      else if k = 6 then Inr 1
      else if k = 7 then (if c AND push_bit 5 1 \<noteq> 0 then Inr 3 else Inr 2)
      else Inl AssertionFailed)"

definition is_utf8_continuation :: "byte \<Rightarrow> bool" where
  "is_utf8_continuation c = (c AND 192 = 128)"

definition is_utf8_leading :: "byte \<Rightarrow> bool" where
  "is_utf8_leading c = (c AND 192 = 192)"

section \<open>Trailing partial bytes\<close>

text \<open>
  The \<^verbatim>\<open>while\<close> loop of \<^verbatim>\<open>num_trailing_partial_bytes\<close>, started with \<open>result = 0\<close>:
  it counts the continuation bytes at the end of \<open>s\<close>.
\<close>

function skip_continuation :: "byte list \<Rightarrow> nat \<Rightarrow> nat" where
  "skip_continuation s result =
     (if result < length s \<and> is_utf8_continuation (s ! (length s - result - 1))
      then skip_continuation s (Suc result)
      else result)"
  by pat_completeness auto
termination
  by (relation "measure (\<lambda>(s, result). length s - result)") auto

declare skip_continuation.simps [simp del]

definition num_trailing_partial_bytes :: "byte list \<Rightarrow> error + nat" where
  "num_trailing_partial_bytes s =
     (if s = [] then Inr 0
      else if is_utf8_leading (last s) then Inr 1
      else
        let result = skip_continuation s 0 in
        if result \<noteq> 0 \<and> result < length s then
          (case num_succeeding_bytes (s ! (length s - result - 1)) of
             Inl e \<Rightarrow> Inl e
           | Inr n \<Rightarrow> if n = result then Inr 0 else Inr (Suc result))
        else Inr result)"


section \<open>The platform converter\<close>

text \<open>
  Modelled from the spec: the converters \<^verbatim>\<open>MultiByteToWideChar\<close> and
  \<^verbatim>\<open>WideCharToMultiByte\<close> with code page \<^verbatim>\<open>CP_UTF8\<close>, and the macro
  \<^verbatim>\<open>IS_HIGH_SURROGATE\<close>, belong to the platform; the repository only calls them.
  The spec says of them: they convert between UTF-8 and UTF-16; with "reject invalid
  sequences" enabled they report failure (a length of zero) on invalid input; without it
  they replace an invalid subsequence by the replacement character U+FFFD.  The model
  decodes to code points and encodes again.  Well-formed UTF-8 is that of the Unicode
  standard: no overlong forms, no surrogates, nothing above U+10FFFF.  In lenient mode each
  byte (or code unit) that starts no well-formed sequence is replaced by U+FFFD and the
  conversion resumes behind it.  The result length is an \<^verbatim>\<open>int\<close>: a conversion whose
  result would be longer than \<^verbatim>\<open>INT_MAX\<close> reports failure.
\<close>

definition INT_MAX :: nat where
  "INT_MAX = 2147483647"

definition MB_ERR_INVALID_CHARS :: DWORD where
  "MB_ERR_INVALID_CHARS = 0x00000008"

definition WC_ERR_INVALID_CHARS :: DWORD where
  "WC_ERR_INVALID_CHARS = 0x00000080"

text \<open>
  Modelled from the spec: the platform macros \<^verbatim>\<open>IS_HIGH_SURROGATE\<close> and
  \<^verbatim>\<open>IS_LOW_SURROGATE\<close>, the two halves of a surrogate pair.
\<close>

definition IS_HIGH_SURROGATE :: "wchar \<Rightarrow> bool" where
  "IS_HIGH_SURROGATE wch = (0xD800 \<le> wch \<and> wch \<le> 0xDBFF)"

definition IS_LOW_SURROGATE :: "wchar \<Rightarrow> bool" where
  "IS_LOW_SURROGATE wch = (0xDC00 \<le> wch \<and> wch \<le> 0xDFFF)"

text \<open>The second byte of a 3- or 4-byte sequence, and every later byte.\<close>

definition second_byte_ok :: "byte \<Rightarrow> byte \<Rightarrow> bool" where
  "second_byte_ok b0 b1 =
     (if b0 = 0xE0 then 0xA0 \<le> b1 \<and> b1 \<le> 0xBF
      else if b0 = 0xED then 0x80 \<le> b1 \<and> b1 \<le> 0x9F
      else if b0 = 0xF0 then 0x90 \<le> b1 \<and> b1 \<le> 0xBF
      else if b0 = 0xF4 then 0x80 \<le> b1 \<and> b1 \<le> 0x8F
      else 0x80 \<le> b1 \<and> b1 \<le> 0xBF)"

definition tail_byte_ok :: "byte \<Rightarrow> bool" where
  "tail_byte_ok b = (0x80 \<le> b \<and> b \<le> 0xBF)"

text \<open>
  The well-formed sequence at the front of a byte string: its code point and its length,
  or \<open>None\<close> when the string starts with no well-formed sequence.
\<close>

fun utf8_decode1 :: "byte list \<Rightarrow> (nat \<times> nat) option" where
  "utf8_decode1 [] = None"
| "utf8_decode1 (b0 # bs) =
     (if b0 \<le> 0x7F then Some (unat b0, 1)
      else if 0xC2 \<le> b0 \<and> b0 \<le> 0xDF then
        (case bs of
           b1 # _ \<Rightarrow>
             if tail_byte_ok b1
             then Some ((unat b0 - 0xC0) * 64 + (unat b1 - 0x80), 2) else None
         | _ \<Rightarrow> None)
      else if 0xE0 \<le> b0 \<and> b0 \<le> 0xEF then
        (case bs of
           b1 # b2 # _ \<Rightarrow>
             if second_byte_ok b0 b1 \<and> tail_byte_ok b2
             then Some ((unat b0 - 0xE0) * 4096 + (unat b1 - 0x80) * 64 + (unat b2 - 0x80), 3)
             else None
         | _ \<Rightarrow> None)
      else if 0xF0 \<le> b0 \<and> b0 \<le> 0xF4 then
        (case bs of
           b1 # b2 # b3 # _ \<Rightarrow>
             if second_byte_ok b0 b1 \<and> tail_byte_ok b2 \<and> tail_byte_ok b3
             then Some ((unat b0 - 0xF0) * 262144 + (unat b1 - 0x80) * 4096 +
                        (unat b2 - 0x80) * 64 + (unat b3 - 0x80), 4)
             else None
         | _ \<Rightarrow> None)
      else None)"

fun utf8_to_code_points :: "bool \<Rightarrow> byte list \<Rightarrow> nat list option" where
  "utf8_to_code_points strict [] = Some []"
| "utf8_to_code_points strict (b # bs) =
     (case utf8_decode1 (b # bs) of
        Some (cp, n) \<Rightarrow> map_option ((#) cp) (utf8_to_code_points strict (drop (n - 1) bs))
      | None \<Rightarrow>
          if strict then None
          else map_option ((#) 0xFFFD) (utf8_to_code_points strict bs))"

definition utf16_encode :: "nat \<Rightarrow> wchar list" where
  "utf16_encode cp =
     (if cp < 0x10000 then [word_of_nat cp]
      else [word_of_nat (0xD800 + (cp - 0x10000) div 0x400),
            word_of_nat (0xDC00 + (cp - 0x10000) mod 0x400)])"

fun utf16_to_code_points :: "bool \<Rightarrow> wchar list \<Rightarrow> nat list option" where
  "utf16_to_code_points strict [] = Some []"
| "utf16_to_code_points strict (w # ws) =
     (if IS_HIGH_SURROGATE w \<and> ws \<noteq> [] \<and> IS_LOW_SURROGATE (hd ws) then
        map_option ((#) (0x10000 + (unat w - 0xD800) * 0x400 + (unat (hd ws) - 0xDC00)))
          (utf16_to_code_points strict (tl ws))
      else if IS_HIGH_SURROGATE w \<or> IS_LOW_SURROGATE w then
        (if strict then None
         else map_option ((#) 0xFFFD) (utf16_to_code_points strict ws))
      else map_option ((#) (unat w)) (utf16_to_code_points strict ws))"

definition utf8_encode :: "nat \<Rightarrow> byte list" where
  "utf8_encode cp =
     (if cp < 0x80 then [word_of_nat cp]
      else if cp < 0x800 then [word_of_nat (0xC0 + cp div 64), word_of_nat (0x80 + cp mod 64)]
      else if cp < 0x10000 then
        [word_of_nat (0xE0 + cp div 4096), word_of_nat (0x80 + cp div 64 mod 64),
         word_of_nat (0x80 + cp mod 64)]
      else
        [word_of_nat (0xF0 + cp div 262144), word_of_nat (0x80 + cp div 4096 mod 64),
         word_of_nat (0x80 + cp div 64 mod 64), word_of_nat (0x80 + cp mod 64)])"

definition utf16_of_code_points :: "nat list \<Rightarrow> wchar list" where
  "utf16_of_code_points cps = concat (map utf16_encode cps)"

definition utf8_of_code_points :: "nat list \<Rightarrow> byte list" where
  "utf8_of_code_points cps = concat (map utf8_encode cps)"

text \<open>
  Modelled from the spec: the two platform calls \<^verbatim>\<open>MultiByteToWideChar\<close> and
  \<^verbatim>\<open>WideCharToMultiByte\<close>.  The code calls each twice, first without an output buffer to
  learn the length, then to fill the buffer: the model returns the length and the
  converted text together, and the length 0 with no text on failure.
\<close>

definition MultiByteToWideChar :: "DWORD \<Rightarrow> byte list \<Rightarrow> int \<times> wchar list" where
  "MultiByteToWideChar flags s =
     (case utf8_to_code_points (flags AND MB_ERR_INVALID_CHARS \<noteq> 0) s of
        None \<Rightarrow> (0, [])
      | Some cps \<Rightarrow>
          let out = utf16_of_code_points cps in
          if length out \<le> INT_MAX then (int (length out), out) else (0, []))"

definition WideCharToMultiByte :: "DWORD \<Rightarrow> wchar list \<Rightarrow> int \<times> byte list" where
  "WideCharToMultiByte flags s =
     (case utf16_to_code_points (flags AND WC_ERR_INVALID_CHARS \<noteq> 0) s of
        None \<Rightarrow> (0, [])
      | Some cps \<Rightarrow>
          let out = utf8_of_code_points cps in
          if length out \<le> INT_MAX then (int (length out), out) else (0, []))"

text \<open>The code points that UTF-8 and UTF-16 encode: all but the surrogates, up to U+10FFFF.\<close>

definition scalar_value :: "nat \<Rightarrow> bool" where
  "scalar_value cp \<longleftrightarrow> cp < 0xD800 \<or> (0xE000 \<le> cp \<and> cp \<le> 0x10FFFF)"

text \<open>Valid UTF-8 and valid UTF-16: what the strict decoder accepts.\<close>

definition valid_utf8 :: "byte list \<Rightarrow> bool" where
  "valid_utf8 s = (utf8_to_code_points True s \<noteq> None)"

definition valid_utf16 :: "wchar list \<Rightarrow> bool" where
  "valid_utf16 s = (utf16_to_code_points True s \<noteq> None)"

section \<open>The codec\<close>

definition u8_default_throw :: bool where
  "u8_default_throw = True"

text \<open>\<^verbatim>\<open>u8widen(const char* s, size_t len, bool throw_on_inv_chars)\<close>; \<open>s\<close> holds the \<open>len\<close> bytes.\<close>

definition u8widen :: "byte list \<Rightarrow> bool \<Rightarrow> error + wchar list" where
  "u8widen s throw_on_inv_chars =
     (if length s = 0 then Inr []
      else if length s < INT_MAX \<and>
              0 < fst (MultiByteToWideChar (if throw_on_inv_chars then MB_ERR_INVALID_CHARS else 0) s)
      then Inr (snd (MultiByteToWideChar (if throw_on_inv_chars then MB_ERR_INVALID_CHARS else 0) s))
      else Inl (U8ConversionError ''utf8 to wide-string conversion failed.''))"

text \<open>\<^verbatim>\<open>u8narrow(const wchar_t* s, size_t len, bool throw_on_inv_chars)\<close>.\<close>

definition u8narrow :: "wchar list \<Rightarrow> bool \<Rightarrow> error + byte list" where
  "u8narrow s throw_on_inv_chars =
     (if length s = 0 then Inr []
      else if length s < INT_MAX \<and>
              0 < fst (WideCharToMultiByte (if throw_on_inv_chars then WC_ERR_INVALID_CHARS else 0) s)
      then Inr (snd (WideCharToMultiByte (if throw_on_inv_chars then WC_ERR_INVALID_CHARS else 0) s))
      else Inl (U8ConversionError ''wide-string to utf8 conversion failed.''))"

text \<open>
  \<^verbatim>\<open>u8narrow(const wchar_t* s, bool throw_on_inv_chars = u8_default_throw)\<close>: the length is
  \<^verbatim>\<open>std::wcslen(s)\<close>, the number of units in front of the first zero unit.
\<close>

definition wcslen :: "wchar list \<Rightarrow> nat" where
  "wcslen s = length (takeWhile (\<lambda>c. c \<noteq> 0) s)"

definition u8narrow_cstr :: "wchar list \<Rightarrow> bool \<Rightarrow> error + byte list" where
  "u8narrow_cstr s throw_on_inv_chars = u8narrow (take (wcslen s) s) throw_on_inv_chars"

section \<open>The terminal\<close>

text \<open>
  Modelled from the spec: the terminal primitives \<^verbatim>\<open>ReadConsoleW\<close> and
  \<^verbatim>\<open>WriteConsoleW\<close> belong to the platform.  The spec asks of them only
  \<open>read_units(max_count) -> (units_read, code_units)\<close> and
  \<open>write_units(code_units) -> units_written\<close>, each of which may report failure.

  The input side of a terminal is the list of answers it will give to the next reads,
  and the list of the reads issued so far (the number of units each asked for).  An
  answer is a failure or a run of code units; a read takes at most as many units as it
  asked for and leaves the others for the next read.  A terminal with no answer left
  reports failure.
\<close>

datatype read_event = ReadFails | Delivers "wchar list"

record console_input =
  answers :: "read_event list"
  reads :: "nat list"

definition ReadConsoleW :: "console_input \<Rightarrow> nat \<Rightarrow> (bool \<times> wchar list) \<times> console_input" where
  "ReadConsoleW con n =
     (case answers con of
        [] \<Rightarrow> ((False, []), con\<lparr>reads := reads con @ [n]\<rparr>)
      | ReadFails # rest \<Rightarrow> ((False, []), con\<lparr>answers := rest, reads := reads con @ [n]\<rparr>)
      | Delivers us # rest \<Rightarrow>
          ((True, take n us),
           con\<lparr>answers := (if drop n us = [] then rest else Delivers (drop n us) # rest),
               reads := reads con @ [n]\<rparr>))"

text \<open>
  Modelled from the spec: \<^verbatim>\<open>WriteConsoleW\<close>.
  The output side is the list of outcomes of the next writes (failure, or the number of
  units the terminal reports as written), and the list of the writes issued so far.  A
  terminal with no outcome left writes everything.
\<close>

datatype write_event = WriteFails | Writes nat

record console_output =
  outcomes :: "write_event list"
  writes :: "wchar list list"

definition WriteConsoleW :: "console_output \<Rightarrow> wchar list \<Rightarrow> (bool \<times> nat) \<times> console_output" where
  "WriteConsoleW con buf =
     (case outcomes con of
        [] \<Rightarrow> ((True, length buf), con\<lparr>writes := writes con @ [buf]\<rparr>)
      | WriteFails # rest \<Rightarrow> ((False, 0), con\<lparr>outcomes := rest, writes := writes con @ [buf]\<rparr>)
      | Writes n # rest \<Rightarrow>
          ((True, min n (length buf)), con\<lparr>outcomes := rest, writes := writes con @ [buf]\<rparr>))"

section \<open>The output adapter\<close>

text \<open>
  \<^verbatim>\<open>U8ConsoleOstreamBufWin32\<close> is a \<^verbatim>\<open>std::stringbuf\<close>: \<open>str\<close> is the text written to the
  stream since the last \<^verbatim>\<open>sync\<close>.
\<close>

record U8ConsoleOstreamBufWin32 =
  str :: "byte list"
  m_unwritten_partial_bytes :: "byte list"
  m_handle :: console_output

text \<open>Writing bytes to the stream appends them to the buffer of the \<^verbatim>\<open>stringbuf\<close>.\<close>

definition sputn :: "U8ConsoleOstreamBufWin32 \<Rightarrow> byte list \<Rightarrow> U8ConsoleOstreamBufWin32" where
  "sputn this s = this\<lparr>str := str this @ s\<rparr>"

text \<open>
  \<^verbatim>\<open>sync\<close>.  The result is the returned \<^verbatim>\<open>int\<close> or the exception that leaves the function,
  together with the object as the call leaves it.  \<^verbatim>\<open>u8widen(buffer)\<close> is the overload for
  \<^verbatim>\<open>std::string\<close> with the default \<^verbatim>\<open>u8_default_throw\<close>.  The result of
  \<^verbatim>\<open>WriteConsoleW\<close> and \<^verbatim>\<open>writtenSize\<close> are not looked at.
\<close>

definition sync :: "U8ConsoleOstreamBufWin32 \<Rightarrow> (error + int) \<times> U8ConsoleOstreamBufWin32" where
  "sync this =
     (let buffer = m_unwritten_partial_bytes this @ str this in
      case num_trailing_partial_bytes buffer of
        Inl e \<Rightarrow> (Inl e, this)
      | Inr partial_trailing \<Rightarrow>
          let this1 = this\<lparr>m_unwritten_partial_bytes :=
                             drop (length buffer - partial_trailing) buffer,
                           str := []\<rparr>;
              buffer1 = take (length buffer - partial_trailing) buffer
          in
          if buffer1 = [] then (Inr 0, this1)
          else
            (case u8widen buffer1 u8_default_throw of
               Inl e \<Rightarrow> (Inl e, this1)
             | Inr wideBuffer \<Rightarrow>
                 (Inr 0, this1\<lparr>m_handle := snd (WriteConsoleW (m_handle this1) wideBuffer)\<rparr>)))"

text \<open>
  Feeding chunks: each chunk is written to the stream and then flushed by \<^verbatim>\<open>sync\<close>; an
  exception ends the run.
\<close>

fun feed :: "U8ConsoleOstreamBufWin32 \<Rightarrow> byte list list \<Rightarrow> (error + int) \<times> U8ConsoleOstreamBufWin32" where
  "feed this [] = (Inr 0, this)"
| "feed this (c # cs) =
     (case sync (sputn this c) of
        (Inl e, this') \<Rightarrow> (Inl e, this')
      | (Inr r, this') \<Rightarrow> feed this' cs)"

text \<open>The adapter as its constructor leaves it, on a given terminal.\<close>

definition new_ostreambuf :: "console_output \<Rightarrow> U8ConsoleOstreamBufWin32" where
  "new_ostreambuf con = \<lparr>str = [], m_unwritten_partial_bytes = [], m_handle = con\<rparr>"

section \<open>The stream behind the output adapter\<close>

text \<open>
  \<^verbatim>\<open>sync\<close> cuts its buffer in two: the bytes it converts and writes, and the last
  \<^verbatim>\<open>partial_trailing\<close> bytes, which it keeps for the next call.
\<close>

definition withheld :: "byte list \<Rightarrow> byte list" where
  "withheld s =
     (case num_trailing_partial_bytes s of
        Inr k \<Rightarrow> drop (length s - k) s
      | Inl _ \<Rightarrow> [])"

definition released :: "byte list \<Rightarrow> byte list" where
  "released s =
     (case num_trailing_partial_bytes s of
        Inr k \<Rightarrow> take (length s - k) s
      | Inl _ \<Rightarrow> [])"

text \<open>
  The adapter after the first \<open>m\<close> bytes of a string \<open>s\<close> have been flushed through it:
  it keeps what \<^verbatim>\<open>sync\<close> withholds of these bytes, and (second predicate) the terminal
  has received, behind the units \<open>w0\<close> it held before, the conversion of the others.
\<close>

definition pending_state :: "byte list \<Rightarrow> nat \<Rightarrow> U8ConsoleOstreamBufWin32 \<Rightarrow> bool" where
  "pending_state s m this \<longleftrightarrow>
     m \<le> length s \<and> str this = [] \<and> m_unwritten_partial_bytes this = withheld (take m s)"

definition stream_state :: "byte list \<Rightarrow> wchar list \<Rightarrow> nat \<Rightarrow> U8ConsoleOstreamBufWin32 \<Rightarrow> bool" where
  "stream_state s w0 m this \<longleftrightarrow>
     pending_state s m this \<and>
     (case utf8_to_code_points True (released (take m s)) of
        None \<Rightarrow> False
      | Some cps \<Rightarrow> concat (writes (m_handle this)) = w0 @ utf16_of_code_points cps)"

section \<open>The input adapter\<close>

text \<open>
  \<^verbatim>\<open>U8ConsoleIstreamBufWin32\<close>: \<open>m_buffer\<close> is the read window; \<open>gptr\<close> and \<open>egptr\<close>
  are the get pointers as offsets into it.  The handle field is \<^verbatim>\<open>m_handle\<close> in the
  source.
\<close>

record U8ConsoleIstreamBufWin32 =
  m_buffer :: "byte list"
  gptr :: nat
  egptr :: nat
  m_handle_in :: console_input

definition eof :: int where
  "eof = - 1"

definition ARRAYSIZE_wideBuffer :: nat where
  "ARRAYSIZE_wideBuffer = 128"

text \<open>\<^verbatim>\<open>sgetc\<close> with a character available: the byte at the get pointer, as \<^verbatim>\<open>unsigned char\<close>.\<close>

definition sgetc :: "U8ConsoleIstreamBufWin32 \<Rightarrow> int" where
  "sgetc this = uint (m_buffer this ! gptr this)"

text \<open>
  The reads of \<^verbatim>\<open>underflow\<close>: the batch read, and one more read of a single unit when the
  batch ends in a high surrogate.  The result is \<open>None\<close> when the batch read fails, and
  else the units in \<^verbatim>\<open>wideBuffer\<close> with the terminating zero written behind them.
\<close>

definition read_batch :: "console_input \<Rightarrow> wchar list option \<times> console_input" where
  "read_batch con =
     (case ReadConsoleW con (ARRAYSIZE_wideBuffer - 2) of
        ((False, _), con1) \<Rightarrow> (None, con1)
      | ((True, units), con1) \<Rightarrow>
          if length units > 0 \<and> IS_HIGH_SURROGATE (units ! (length units - 1)) then
            (case ReadConsoleW con1 1 of
               ((ok, extra), con2) \<Rightarrow>
                 if ok \<and> length extra = 1 then (Some (units @ extra @ [0]), con2)
                 else (Some (units @ [0]), con2))
          else (Some (units @ [0]), con1))"

text \<open>
  \<^verbatim>\<open>underflow\<close>.  \<^verbatim>\<open>u8narrow(wideBuffer)\<close> is the overload for \<^verbatim>\<open>const wchar_t*\<close> with the
  default \<^verbatim>\<open>u8_default_throw\<close>.
\<close>

definition underflow :: "U8ConsoleIstreamBufWin32 \<Rightarrow> (error + int) \<times> U8ConsoleIstreamBufWin32" where
  "underflow this =
     (if gptr this \<ge> egptr this then
        (case read_batch (m_handle_in this) of
           (None, con) \<Rightarrow> (Inr eof, this\<lparr>m_handle_in := con\<rparr>)
         | (Some wideBuffer, con) \<Rightarrow>
             (case u8narrow_cstr wideBuffer u8_default_throw of
                Inl e \<Rightarrow> (Inl e, this\<lparr>m_handle_in := con\<rparr>)
              | Inr b \<Rightarrow>
                  let this1 = this\<lparr>m_buffer := b, gptr := 0, egptr := length b,
                                   m_handle_in := con\<rparr>
                  in if gptr this1 \<ge> egptr this1 then (Inr eof, this1)
                     else (Inr (sgetc this1), this1)))
      else (Inr (sgetc this), this))"

definition new_istreambuf :: "console_input \<Rightarrow> U8ConsoleIstreamBufWin32" where
  "new_istreambuf con = \<lparr>m_buffer = [], gptr = 0, egptr = 0, m_handle_in = con\<rparr>"

section \<open>Facts about the classifier\<close>

text \<open>A property of all 256 bytes follows from its instances at the numbers below 256.\<close>

lemma byte_all: "(\<forall>n\<in>set [0..<256]. P (word_of_nat n :: byte)) \<Longrightarrow> P c"
proof -
  assume a: "\<forall>n\<in>set [0..<256]. P (word_of_nat n :: byte)"
  have "unat c < 256" using unsigned_less [of c] by simp
  then have "P (word_of_nat (unat c))" using a [rule_format, of "unat c"] by simp
  then show ?thesis by simp
qed

lemma is_utf8_continuation_range: "is_utf8_continuation c \<longleftrightarrow> 128 \<le> c \<and> c < 192"
  by (rule byte_all [of _ c]) code_simp

lemma is_utf8_leading_range: "is_utf8_leading c \<longleftrightarrow> 192 \<le> c"
  by (rule byte_all [of _ c]) code_simp

text \<open>
  What the classifier computes, byte range by byte range.  Every byte from \<open>0xE0\<close> up
  has bit 5 set, so the test of case 7 always succeeds and the branch returning 2 is dead.
\<close>

lemma num_succeeding_bytes_range:
  "num_succeeding_bytes c =
     (if c < 128 then Inr 0
      else if c < 192 then Inl AssertionFailed
      else if c < 224 then Inr 1
      else Inr 3)"
  by (rule byte_all [of _ c]) code_simp

lemma num_succeeding_bytes_ascii: "c < 128 \<Longrightarrow> num_succeeding_bytes c = Inr 0"
  by (simp add: num_succeeding_bytes_range)

lemma num_succeeding_bytes_two: "192 \<le> c \<Longrightarrow> c < 224 \<Longrightarrow> num_succeeding_bytes c = Inr 1"
  by (simp add: num_succeeding_bytes_range word_le_nat_alt word_less_nat_alt)

lemma num_succeeding_bytes_four: "240 \<le> c \<Longrightarrow> num_succeeding_bytes c = Inr 3"
  by (simp add: num_succeeding_bytes_range word_le_nat_alt word_less_nat_alt)

text \<open>
  C1.  The classifier is claimed to return 0 for a byte with top bit 0, 1 for a byte of the
  shape \<open>110xxxxx\<close>, 2 for \<open>1110xxxx\<close> and 3 for \<open>11110xxx\<close>.  By the lemmas above it
  returns 3 and never 2 for \<open>1110xxxx\<close>: at the lead byte \<open>0xE2\<close> of the Euro sign the code
  returns 3.
\<close>

theorem num_succeeding_bytes_E2: "num_succeeding_bytes 0xE2 = Inr 3"
  by (simp add: num_succeeding_bytes_def)

section \<open>Facts about the backward scan\<close>

lemma skip_continuation_ge: "result \<le> skip_continuation s result"
proof (induction s result rule: skip_continuation.induct)
  case (1 s result)
  show ?case
  proof (cases "result < length s \<and> is_utf8_continuation (s ! (length s - result - 1))")
    case True
    with "1" have "Suc result \<le> skip_continuation s (Suc result)" by simp
    with True show ?thesis by (subst skip_continuation.simps) simp
  next
    case False
    then show ?thesis by (subst skip_continuation.simps) auto
  qed
qed

lemma skip_continuation_le:
  "result \<le> length s \<Longrightarrow> skip_continuation s result \<le> length s"
proof (induction s result rule: skip_continuation.induct)
  case (1 s result)
  show ?case
  proof (cases "result < length s \<and> is_utf8_continuation (s ! (length s - result - 1))")
    case True
    with "1" have "skip_continuation s (Suc result) \<le> length s" by simp
    with True show ?thesis by (subst skip_continuation.simps) simp
  next
    case False
    with "1.prems" show ?thesis by (subst skip_continuation.simps) auto
  qed
qed

text \<open>The scan stops in front of a byte that is not a continuation byte.\<close>

lemma skip_continuation_stops:
  "skip_continuation s result < length s \<Longrightarrow>
   \<not> is_utf8_continuation (s ! (length s - skip_continuation s result - 1))"
proof (induction s result rule: skip_continuation.induct)
  case (1 s result)
  show ?case
  proof (cases "result < length s \<and> is_utf8_continuation (s ! (length s - result - 1))")
    case True
    then have eq: "skip_continuation s result = skip_continuation s (Suc result)"
      by (subst skip_continuation.simps) simp
    with "1" True show ?thesis by simp
  next
    case False
    then have eq: "skip_continuation s result = result"
      by (subst skip_continuation.simps) auto
    with "1.prems" False show ?thesis by simp
  qed
qed

text \<open>Every byte the scan has passed is a continuation byte.\<close>

lemma skip_continuation_passed:
  "\<forall>i<result. is_utf8_continuation (s ! (length s - i - 1)) \<Longrightarrow>
   i < skip_continuation s result \<Longrightarrow> is_utf8_continuation (s ! (length s - i - 1))"
proof (induction s result rule: skip_continuation.induct)
  case (1 s result)
  show ?case
  proof (cases "result < length s \<and> is_utf8_continuation (s ! (length s - result - 1))")
    case True
    then have eq: "skip_continuation s result = skip_continuation s (Suc result)"
      by (subst skip_continuation.simps) simp
    have "\<forall>i<Suc result. is_utf8_continuation (s ! (length s - i - 1))"
      using True "1.prems"(1) by (auto simp: less_Suc_eq)
    with "1.IH" True "1.prems"(2) eq show ?thesis by simp
  next
    case False
    then have eq: "skip_continuation s result = result"
      by (subst skip_continuation.simps) auto
    with "1.prems" show ?thesis by simp
  qed
qed

text \<open>The scan counts the continuation bytes at the end of \<open>s\<close>.\<close>

lemma skip_continuation_takeWhile:
  "skip_continuation s 0 = length (takeWhile is_utf8_continuation (rev s))"
proof -
  let ?r = "skip_continuation s 0"
  have le: "?r \<le> length s" by (simp add: skip_continuation_le)
  have "takeWhile is_utf8_continuation (rev s) = take ?r (rev s)"
  proof (rule takeWhile_eq_take_P_nth)
    fix i assume "i < ?r" "i < length (rev s)"
    then show "is_utf8_continuation (rev s ! i)"
      using skip_continuation_passed [of 0 s i] by (simp add: rev_nth)
  next
    assume "?r < length (rev s)"
    then show "\<not> is_utf8_continuation (rev s ! ?r)"
      using skip_continuation_stops [of s 0] by (simp add: rev_nth)
  qed
  with le show ?thesis by simp
qed

text \<open>
  C10.  For every byte sequence \<open>s\<close>, when \<open>num_trailing_partial_bytes\<close> reaches its call
  of the classifier (\<open>s\<close> is not empty, its last byte is not a lead byte, and the scan
  has counted \<open>result\<close> bytes with \<open>0 < result < length s\<close>), the byte it passes,
  \<open>s[s.size() - result - 1]\<close>, is not a continuation byte; the classifier does not fail
  its assertion on that byte, and \<open>num_trailing_partial_bytes\<close> never fails an assertion.
\<close>

theorem classifier_argument_not_continuation:
  "(s \<noteq> [] \<and> \<not> is_utf8_leading (last s) \<and>
    skip_continuation s 0 \<noteq> 0 \<and> skip_continuation s 0 < length s \<longrightarrow>
      \<not> is_utf8_continuation (s ! (length s - skip_continuation s 0 - 1)) \<and>
      num_succeeding_bytes (s ! (length s - skip_continuation s 0 - 1)) \<noteq> Inl AssertionFailed)
   \<and> num_trailing_partial_bytes s \<noteq> Inl AssertionFailed"
proof -
  have stop: "\<not> is_utf8_continuation (s ! (length s - skip_continuation s 0 - 1))"
    if "skip_continuation s 0 < length s"
    using that by (rule skip_continuation_stops)
  have ok: "num_succeeding_bytes c \<noteq> Inl AssertionFailed" if "\<not> is_utf8_continuation c" for c
    using that by (auto simp: num_succeeding_bytes_range is_utf8_continuation_range)
  show ?thesis
    using stop ok [of "s ! (length s - skip_continuation s 0 - 1)"]
    by (auto simp: num_trailing_partial_bytes_def Let_def split: sum.splits)
qed

theorem classifier_argument_not_continuation_witness:
  "([0xE2, 0x82] :: byte list) \<noteq> [] \<and> \<not> is_utf8_leading (last [0xE2, 0x82]) \<and>
   skip_continuation [0xE2, 0x82] 0 \<noteq> 0 \<and> skip_continuation [0xE2, 0x82] 0 < length [0xE2, 0x82 :: byte] \<and>
   \<not> is_utf8_continuation ([0xE2, 0x82] ! (length [0xE2, 0x82 :: byte] - skip_continuation [0xE2, 0x82] 0 - 1)) \<and>
   num_trailing_partial_bytes [0xE2, 0x82] \<noteq> Inl AssertionFailed"
proof -
  have h: "([0xE2, 0x82] :: byte list) \<noteq> [] \<and> \<not> is_utf8_leading (last [0xE2, 0x82]) \<and>
    skip_continuation [0xE2, 0x82] 0 \<noteq> 0 \<and> skip_continuation [0xE2, 0x82] 0 < length [0xE2, 0x82 :: byte]"
    by code_simp
  show ?thesis
    using h classifier_argument_not_continuation [of "[0xE2, 0x82]"] by blast
qed

section \<open>The scan, read from the end\<close>

lemma takeWhile_less:
  "x \<in> set xs \<Longrightarrow> \<not> P x \<Longrightarrow> length (takeWhile P xs) < length xs"
  by (induction xs) auto

lemma num_trailing_partial_bytes_rev:
  "num_trailing_partial_bytes s =
     (if s = [] then Inr 0
      else if is_utf8_leading (last s) then Inr 1
      else
        let r = length (takeWhile is_utf8_continuation (rev s)) in
        if r \<noteq> 0 \<and> r < length s then
          (case num_succeeding_bytes (rev s ! r) of
             Inl e \<Rightarrow> Inl e
           | Inr n \<Rightarrow> if n = r then Inr 0 else Inr (Suc r))
        else Inr r)"
proof -
  let ?r = "skip_continuation s 0"
  have nth: "s ! (length s - ?r - 1) = rev s ! ?r" if "?r < length s"
    using that by (simp add: rev_nth)
  have "num_trailing_partial_bytes s =
     (if s = [] then Inr 0
      else if is_utf8_leading (last s) then Inr 1
      else
        if ?r \<noteq> 0 \<and> ?r < length s then
          (case num_succeeding_bytes (rev s ! ?r) of
             Inl e \<Rightarrow> Inl e
           | Inr n \<Rightarrow> if n = ?r then Inr 0 else Inr (Suc ?r))
        else Inr ?r)"
    unfolding num_trailing_partial_bytes_def Let_def using nth by auto
  then show ?thesis
    unfolding Let_def skip_continuation_takeWhile .
qed

lemma num_trailing_partial_bytes_le:
  assumes "num_trailing_partial_bytes s = Inr k"
  shows "k \<le> length s"
proof -
  let ?r = "length (takeWhile is_utf8_continuation (rev s))"
  have le: "?r \<le> length s"
    using length_takeWhile_le [of is_utf8_continuation "rev s"] by simp
  consider "s = []" | "s \<noteq> []" "is_utf8_leading (last s)"
    | "s \<noteq> []" "\<not> is_utf8_leading (last s)" "?r \<noteq> 0 \<and> ?r < length s"
    | "s \<noteq> []" "\<not> is_utf8_leading (last s)" "\<not> (?r \<noteq> 0 \<and> ?r < length s)"
    by blast
  then show ?thesis
  proof cases
    case 1
    with assms show ?thesis by (simp add: num_trailing_partial_bytes_rev)
  next
    case 2
    with assms have "k = 1" by (simp add: num_trailing_partial_bytes_rev)
    with 2 show ?thesis by (cases s) auto
  next
    case 3
    with assms have "k = 0 \<or> k = Suc ?r"
      by (auto simp: num_trailing_partial_bytes_rev Let_def split: sum.splits if_splits)
    with 3 show ?thesis by auto
  next
    case 4
    with assms have "k = ?r"
      by (auto simp: num_trailing_partial_bytes_rev Let_def)
    with le show ?thesis by simp
  qed
qed

lemma num_trailing_partial_bytes_local:
  assumes "\<exists>b\<in>set buf. \<not> is_utf8_continuation b"
  shows "num_trailing_partial_bytes (pre @ buf) = num_trailing_partial_bytes buf"
proof -
  from assms obtain b where b: "b \<in> set (rev buf)" "\<not> is_utf8_continuation b" by auto
  have tw: "takeWhile is_utf8_continuation (rev buf @ rev pre) =
            takeWhile is_utf8_continuation (rev buf)"
    using b by (rule takeWhile_append1)
  have "length (takeWhile is_utf8_continuation (rev buf)) < length (rev buf)"
    using b by (rule takeWhile_less)
  then have lt: "length (takeWhile is_utf8_continuation (rev buf)) < length buf" by simp
  from assms have ne: "buf \<noteq> []" by auto
  show ?thesis
    unfolding num_trailing_partial_bytes_rev [of "pre @ buf"] num_trailing_partial_bytes_rev [of buf]
    using tw lt ne by (simp add: Let_def nth_append)
qed

section \<open>Well-formed sequences\<close>

lemma tail_byte_ok_continuation: "tail_byte_ok b \<longleftrightarrow> is_utf8_continuation b"
  by (auto simp: tail_byte_ok_def is_utf8_continuation_range word_le_nat_alt word_less_nat_alt)

lemma second_byte_ok_tail: "second_byte_ok b0 b1 \<Longrightarrow> tail_byte_ok b1"
  by (auto simp: second_byte_ok_def tail_byte_ok_def word_le_nat_alt word_less_nat_alt split: if_splits)

text \<open>The four shapes of a well-formed sequence.\<close>

lemma utf8_decode1_cases:
  assumes "utf8_decode1 bs = Some (cp, n)"
  obtains
    (one) b0 r where "bs = b0 # r" "b0 \<le> 0x7F" "n = 1" "cp = unat b0"
  | (two) b0 b1 r where "bs = b0 # b1 # r" "0xC2 \<le> b0" "b0 \<le> 0xDF" "tail_byte_ok b1" "n = 2"
      "cp = (unat b0 - 0xC0) * 64 + (unat b1 - 0x80)"
  | (three) b0 b1 b2 r where "bs = b0 # b1 # b2 # r" "0xE0 \<le> b0" "b0 \<le> 0xEF"
      "second_byte_ok b0 b1" "tail_byte_ok b2" "n = 3"
      "cp = (unat b0 - 0xE0) * 4096 + (unat b1 - 0x80) * 64 + (unat b2 - 0x80)"
  | (four) b0 b1 b2 b3 r where "bs = b0 # b1 # b2 # b3 # r" "0xF0 \<le> b0" "b0 \<le> 0xF4"
      "second_byte_ok b0 b1" "tail_byte_ok b2" "tail_byte_ok b3" "n = 4"
      "cp = (unat b0 - 0xF0) * 262144 + (unat b1 - 0x80) * 4096 +
            (unat b2 - 0x80) * 64 + (unat b3 - 0x80)"
proof (cases bs)
  case Nil
  with assms show ?thesis by simp
next
  case (Cons b0 r)
  show ?thesis
  proof (cases "b0 \<le> 0x7F")
    case True
    with assms Cons show ?thesis by (intro one [of b0 r]) auto
  next
    case n1: False
    show ?thesis
    proof (cases "0xC2 \<le> b0 \<and> b0 \<le> 0xDF")
      case True
      with assms Cons n1 show ?thesis
        by (cases r) (auto split: if_splits intro: two)
    next
      case n2: False
      show ?thesis
      proof (cases "0xE0 \<le> b0 \<and> b0 \<le> 0xEF")
        case True
        with assms Cons n1 n2 show ?thesis
          by (auto split: if_splits list.splits intro: three)
      next
        case n3: False
        with assms Cons n1 n2 show ?thesis
          by (auto split: if_splits list.splits intro: four)
      qed
    qed
  qed
qed

lemma utf8_decode1_length:
  "utf8_decode1 bs = Some (cp, n) \<Longrightarrow> 1 \<le> n \<and> n \<le> 4 \<and> n \<le> length bs"
  by (erule utf8_decode1_cases) auto

text \<open>Decoding looks only at the bytes of the sequence it finds.\<close>

lemma utf8_decode1_local:
  "utf8_decode1 bs = Some (cp, n) \<Longrightarrow> utf8_decode1 (take n bs @ xs) = Some (cp, n)"
  by (erule utf8_decode1_cases) (auto simp: word_le_nat_alt)

lemma utf8_decode1_append:
  "utf8_decode1 bs = Some (cp, n) \<Longrightarrow> utf8_decode1 (bs @ xs) = Some (cp, n)"
  by (erule utf8_decode1_cases) (auto simp: word_le_nat_alt)

lemma utf8_decode1_first:
  "utf8_decode1 bs = Some (cp, n) \<Longrightarrow> \<not> is_utf8_continuation (hd bs)"
  by (erule utf8_decode1_cases)
     (auto simp: is_utf8_continuation_range word_le_nat_alt word_less_nat_alt)

section \<open>The scan on one well-formed sequence\<close>

lemmas byte_ranges =
  is_utf8_leading_range is_utf8_continuation_range num_succeeding_bytes_range
  tail_byte_ok_def word_le_nat_alt word_less_nat_alt

lemma ntpb_Nil: "num_trailing_partial_bytes [] = Inr 0"
  by (simp add: num_trailing_partial_bytes_def)

lemma ntpb_single_ascii: "b \<le> 0x7F \<Longrightarrow> num_trailing_partial_bytes (pre @ [b]) = Inr 0"
  by (simp add: num_trailing_partial_bytes_rev byte_ranges)

lemma ntpb_single_lead: "0xC0 \<le> b \<Longrightarrow> num_trailing_partial_bytes (pre @ [b]) = Inr 1"
  by (simp add: num_trailing_partial_bytes_rev byte_ranges)

lemma ntpb_two_complete:
  "0xC0 \<le> b0 \<Longrightarrow> b0 \<le> 0xDF \<Longrightarrow> tail_byte_ok b1 \<Longrightarrow>
   num_trailing_partial_bytes [b0, b1] = Inr 0"
  by (simp add: num_trailing_partial_bytes_rev byte_ranges)

lemma ntpb_long_one:
  "0xE0 \<le> b0 \<Longrightarrow> tail_byte_ok b1 \<Longrightarrow>
   num_trailing_partial_bytes [b0, b1] = Inr 2"
  by (simp add: num_trailing_partial_bytes_rev byte_ranges)

lemma ntpb_long_two:
  "0xE0 \<le> b0 \<Longrightarrow> tail_byte_ok b1 \<Longrightarrow> tail_byte_ok b2 \<Longrightarrow>
   num_trailing_partial_bytes [b0, b1, b2] = Inr 3"
  by (simp add: num_trailing_partial_bytes_rev byte_ranges)

lemma ntpb_long_three:
  "0xE0 \<le> b0 \<Longrightarrow> tail_byte_ok b1 \<Longrightarrow> tail_byte_ok b2 \<Longrightarrow> tail_byte_ok b3 \<Longrightarrow>
   num_trailing_partial_bytes [b0, b1, b2, b3] = Inr 0"
  by (simp add: num_trailing_partial_bytes_rev byte_ranges)

text \<open>
  What \<open>num_trailing_partial_bytes\<close> returns on the first \<open>m\<close> bytes of one well-formed
  sequence of \<open>n\<close> bytes.
\<close>

lemma ntpb_within_sequence:
  assumes "utf8_decode1 bs = Some (cp, n)" "m \<le> n"
  shows "num_trailing_partial_bytes (take m bs) =
         Inr (if m = 0 then 0 else if m < n then m else if n = 3 then 3 else 0)"
  using assms(1)
proof (cases rule: utf8_decode1_cases)
  case (one b0 r)
  with assms(2) have "m = 0 \<or> m = 1" by auto
  with one show ?thesis
    using ntpb_single_ascii [of b0 "[]"] by (auto simp: ntpb_Nil)
next
  case (two b0 b1 r)
  with assms(2) have "m = 0 \<or> m = 1 \<or> m = 2" by auto
  moreover have "0xC0 \<le> b0" using two by (simp add: word_le_nat_alt)
  ultimately show ?thesis
    using two ntpb_single_lead [of b0 "[]"] ntpb_two_complete [of b0 b1]
    by (auto simp: ntpb_Nil)
next
  case (three b0 b1 b2 r)
  with assms(2) have "m = 0 \<or> m = 1 \<or> m = 2 \<or> m = 3" by auto
  moreover have "0xC0 \<le> b0" using three by (simp add: word_le_nat_alt)
  moreover have "tail_byte_ok b1" using three by (simp add: second_byte_ok_tail)
  ultimately show ?thesis
    using three ntpb_single_lead [of b0 "[]"] ntpb_long_one [of b0 b1] ntpb_long_two [of b0 b1 b2]
    by (auto simp: ntpb_Nil)
next
  case (four b0 b1 b2 b3 r)
  with assms(2) have "m = 0 \<or> m = 1 \<or> m = 2 \<or> m = 3 \<or> m = 4" by auto
  moreover have "0xC0 \<le> b0" "0xE0 \<le> b0" using four by (simp_all add: word_le_nat_alt)
  moreover have "tail_byte_ok b1" using four by (simp add: second_byte_ok_tail)
  ultimately show ?thesis
    using four ntpb_single_lead [of b0 "[]"] ntpb_long_one [of b0 b1] ntpb_long_two [of b0 b1 b2]
      ntpb_long_three [of b0 b1 b2 b3]
    by (auto simp: ntpb_Nil)
qed

text \<open>The same behind any bytes: the bytes of the last sequence decide.\<close>

lemma ntpb_sequence_at_end:
  assumes "utf8_decode1 ch = Some (cp, n)" "0 < m" "m \<le> n"
  shows "num_trailing_partial_bytes (pre @ take m ch) =
         Inr (if m < n then m else if n = 3 then 3 else 0)"
proof -
  have "ch \<noteq> []" using utf8_decode1_length [OF assms(1)] by auto
  then have "take m ch \<noteq> []" "hd (take m ch) = hd ch" using assms(2) by (simp_all add: hd_take)
  moreover have "\<not> is_utf8_continuation (hd ch)" using assms(1) by (rule utf8_decode1_first)
  ultimately have "\<exists>b\<in>set (take m ch). \<not> is_utf8_continuation b"
    using hd_in_set by metis
  then have "num_trailing_partial_bytes (pre @ take m ch) =
             num_trailing_partial_bytes (take m ch)"
    by (rule num_trailing_partial_bytes_local)
  with ntpb_within_sequence [OF assms(1,3)] assms(2) show ?thesis by simp
qed

text \<open>
  C2.  \<open>num_trailing_partial_bytes\<close> is claimed to return 0 for every byte sequence that
  ends exactly on a complete multi-byte sequence of 2, 3 or 4 bytes or on an ASCII byte, and
  at least 1 for one that ends on a lead byte or on a truncated continuation run.  By the
  lemma above this holds but for the complete sequences of 3 bytes: for the three bytes of
  the Euro sign the code returns 3.
\<close>

theorem num_trailing_partial_bytes_euro:
  "num_trailing_partial_bytes [0xE2, 0x82, 0xAC] = Inr 3"
  by code_simp

section \<open>Valid strings\<close>

lemma utf8_to_code_points_step:
  assumes "utf8_decode1 s = Some (cp, n)"
  shows "utf8_to_code_points strict s =
         map_option ((#) cp) (utf8_to_code_points strict (drop n s))"
proof (cases s)
  case Nil
  with assms show ?thesis by simp
next
  case (Cons b bs)
  from assms have "1 \<le> n" using utf8_decode1_length [of s cp n] by simp
  then have "drop n (b # bs) = drop (n - 1) bs" by (cases n) auto
  with assms Cons show ?thesis by simp
qed

lemma valid_utf8_Nil: "valid_utf8 []"
  by (simp add: valid_utf8_def)

lemma valid_utf8_step:
  assumes "s \<noteq> []"
  shows "valid_utf8 s \<longleftrightarrow> (\<exists>cp n. utf8_decode1 s = Some (cp, n) \<and> valid_utf8 (drop n s))"
proof (cases "utf8_decode1 s")
  case None
  with assms show ?thesis by (cases s) (auto simp: valid_utf8_def)
next
  case (Some a)
  obtain cp n where a: "a = (cp, n)" by (cases a)
  with Some show ?thesis
    by (simp add: valid_utf8_def utf8_to_code_points_step [of s cp n])
qed

lemma valid_utf8_first:
  "valid_utf8 s \<Longrightarrow> s \<noteq> [] \<Longrightarrow> \<not> is_utf8_continuation (hd s)"
  using valid_utf8_step [of s] utf8_decode1_first [of s] by auto

text \<open>Decoding distributes over concatenation behind a valid string.\<close>

lemma utf8_to_code_points_append:
  "utf8_to_code_points True a = Some ca \<Longrightarrow>
   utf8_to_code_points strict (a @ b) = map_option ((@) ca) (utf8_to_code_points strict b)"
proof (induction a arbitrary: ca rule: length_induct)
  case (1 a)
  show ?case
  proof (cases "a = []")
    case True
    with "1.prems" show ?thesis by (simp add: option.map_ident)
  next
    case False
    with "1.prems" have "valid_utf8 a" by (simp add: valid_utf8_def)
    with False obtain cp n where d: "utf8_decode1 a = Some (cp, n)"
      using valid_utf8_step [of a] by auto
    then have n: "1 \<le> n" "n \<le> length a" using utf8_decode1_length [of a cp n] by simp_all
    from d "1.prems" obtain cr where
      cr: "utf8_to_code_points True (drop n a) = Some cr" "ca = cp # cr"
      by (auto simp: utf8_to_code_points_step [of a cp n])
    have "length (drop n a) < length a" using n False by simp
    with "1.IH" cr(1) have ih:
      "utf8_to_code_points strict (drop n a @ b) =
       map_option ((@) cr) (utf8_to_code_points strict b)" by blast
    have "utf8_decode1 (a @ b) = Some (cp, n)" using d by (rule utf8_decode1_append)
    then have "utf8_to_code_points strict (a @ b) =
               map_option ((#) cp) (utf8_to_code_points strict (drop n (a @ b)))"
      by (rule utf8_to_code_points_step)
    also have "drop n (a @ b) = drop n a @ b" using n by simp
    finally show ?thesis using ih cr(2) by (simp add: option.map_comp comp_def)
  qed
qed

lemma valid_utf8_append:
  "valid_utf8 a \<Longrightarrow> valid_utf8 (a @ b) \<longleftrightarrow> valid_utf8 b"
  by (auto simp: valid_utf8_def utf8_to_code_points_append)

lemma valid_utf8_single:
  assumes "utf8_decode1 s = Some (cp, n)"
  shows "valid_utf8 (take n s)"
proof -
  have "utf8_decode1 (take n s) = Some (cp, n)"
    using utf8_decode1_local [OF assms, of "[]"] by simp
  moreover have "take n s \<noteq> []" using utf8_decode1_length [OF assms] by auto
  moreover have "drop n (take n s) = []" by simp
  ultimately show ?thesis
    using valid_utf8_step [of "take n s"] valid_utf8_Nil by auto
qed

section \<open>The scan on a prefix of a valid string\<close>

text \<open>
  The withheld tail of a prefix of a valid string: \<open>num_trailing_partial_bytes\<close> cuts the
  first \<open>m\<close> bytes of a valid string at a character boundary, at most three bytes from the
  end, and what it withholds is the start of one well-formed multi-byte sequence.
\<close>

lemma ntpb_prefix_valid:
  "valid_utf8 s \<Longrightarrow> m \<le> length s \<Longrightarrow>
   \<exists>k. num_trailing_partial_bytes (take m s) = Inr k \<and> k \<le> m \<and> k \<le> 3 \<and>
       valid_utf8 (take (m - k) s) \<and> valid_utf8 (drop (m - k) s) \<and>
       (0 < k \<longrightarrow> (\<exists>cp n. utf8_decode1 (drop (m - k) s) = Some (cp, n) \<and>
                      2 \<le> n \<and> k \<le> n \<and> (k = n \<longrightarrow> n = 3)))"
proof (induction s arbitrary: m rule: length_induct)
  case (1 s)
  show ?case
  proof (cases "s = []")
    case True
    with "1.prems" show ?thesis by (simp add: ntpb_Nil valid_utf8_Nil)
  next
    case False
    with "1.prems"(1) obtain cp n where
      d: "utf8_decode1 s = Some (cp, n)" and vr: "valid_utf8 (drop n s)"
      using valid_utf8_step [of s] by auto
    have n: "1 \<le> n" "n \<le> 4" "n \<le> length s" using utf8_decode1_length [OF d] by simp_all
    have vc: "valid_utf8 (take n s)" using d by (rule valid_utf8_single)
    show ?thesis
    proof (cases "m \<le> n")
      case True
      define k where "k = (if m = 0 then 0 else if m < n then m else if n = 3 then 3 else 0)"
      have k: "num_trailing_partial_bytes (take m s) = Inr k"
        unfolding k_def using d True by (rule ntpb_within_sequence)
      have cases: "m - k = 0 \<or> m - k = n" using True by (auto simp: k_def)
      have v1: "valid_utf8 (take (m - k) s)" using cases vc valid_utf8_Nil by auto
      have v2: "valid_utf8 (drop (m - k) s)" using cases vr "1.prems"(1) by auto
      have sh: "\<exists>cp n. utf8_decode1 (drop (m - k) s) = Some (cp, n) \<and>
                   2 \<le> n \<and> k \<le> n \<and> (k = n \<longrightarrow> n = 3)" if "0 < k"
      proof -
        from that True n have "m - k = 0" "2 \<le> n" "k \<le> n" "k = n \<longrightarrow> n = 3"
          by (auto simp: k_def split: if_splits)
        with d show ?thesis by auto
      qed
      have "k \<le> m" "k \<le> 3" using True n by (auto simp: k_def)
      with k v1 v2 sh show ?thesis by (intro exI [of _ k]) simp
    next
      case False
      then have mn: "n < m" by simp
      let ?r = "drop n s"
      have lr: "length ?r < length s" using n \<open>s \<noteq> []\<close> by simp
      have mr: "m - n \<le> length ?r" using "1.prems"(2) by simp
      from "1.IH" lr vr mr obtain k where
        k: "num_trailing_partial_bytes (take (m - n) ?r) = Inr k" "k \<le> m - n" "k \<le> 3"
           "valid_utf8 (take (m - n - k) ?r)" "valid_utf8 (drop (m - n - k) ?r)"
           "0 < k \<longrightarrow> (\<exists>cp n'. utf8_decode1 (drop (m - n - k) ?r) = Some (cp, n') \<and>
                      2 \<le> n' \<and> k \<le> n' \<and> (k = n' \<longrightarrow> n' = 3))"
        by blast
      have split: "take m s = take n s @ take (m - n) ?r"
        using take_add [of n "m - n" s] mn by simp
      have ne: "take (m - n) ?r \<noteq> []" using mn "1.prems"(2) by simp
      have "?r \<noteq> []" using ne by auto
      then have "\<not> is_utf8_continuation (hd ?r)" using vr valid_utf8_first by blast
      moreover have "hd (take (m - n) ?r) = hd ?r" using mn by (simp add: hd_take)
      ultimately have "\<exists>b\<in>set (take (m - n) ?r). \<not> is_utf8_continuation b"
        using ne hd_in_set by metis
      then have loc: "num_trailing_partial_bytes (take m s) =
                      num_trailing_partial_bytes (take (m - n) ?r)"
        unfolding split by (rule num_trailing_partial_bytes_local)
      have "m - k = n + (m - n - k)" using mn k(2) by simp
      then have t: "take (m - k) s = take n s @ take (m - n - k) ?r"
        using take_add [of n "m - n - k" s] by simp
      have dd: "drop (m - k) s = drop (m - n - k) ?r"
        using \<open>m - k = n + (m - n - k)\<close> by (simp add: add.commute)
      have v1: "valid_utf8 (take (m - k) s)"
        unfolding t using vc k(4) by (simp add: valid_utf8_append)
      show ?thesis
      proof (intro exI [of _ k] conjI)
        show "num_trailing_partial_bytes (take m s) = Inr k" using loc k(1) by simp
        show "k \<le> m" using k(2) by simp
        show "k \<le> 3" by (rule k(3))
        show "valid_utf8 (take (m - k) s)" by (rule v1)
        show "valid_utf8 (drop (m - k) s)" unfolding dd by (rule k(5))
        show "0 < k \<longrightarrow> (\<exists>cp n. utf8_decode1 (drop (m - k) s) = Some (cp, n) \<and>
                      2 \<le> n \<and> k \<le> n \<and> (k = n \<longrightarrow> n = 3))"
          unfolding dd by (rule k(6))
      qed
    qed
  qed
qed

section \<open>The converted text\<close>

lemma length_utf16_encode: "1 \<le> length (utf16_encode cp) \<and> length (utf16_encode cp) \<le> 2"
  by (simp add: utf16_encode_def)

lemma utf8_decode1_ascii_cp: "utf8_decode1 bs = Some (cp, 1) \<Longrightarrow> cp < 0x80"
  by (erule utf8_decode1_cases) (auto simp: word_le_nat_alt)

lemma utf8_decode1_units:
  assumes "utf8_decode1 bs = Some (cp, n)"
  shows "length (utf16_encode cp) \<le> n"
proof (cases "n = 1")
  case True
  with assms have "cp < 0x80" by (simp add: utf8_decode1_ascii_cp)
  with True show ?thesis by (simp add: utf16_encode_def)
next
  case False
  with utf8_decode1_length [OF assms] have "2 \<le> n" by simp
  with length_utf16_encode [of cp] show ?thesis by simp
qed

text \<open>The lenient decoder always succeeds.\<close>

lemma utf8_to_code_points_lenient: "utf8_to_code_points False s \<noteq> None"
proof (induction s rule: length_induct)
  case (1 s)
  show ?case
  proof (cases s)
    case Nil
    then show ?thesis by simp
  next
    case (Cons b bs)
    show ?thesis
    proof (cases "utf8_decode1 s")
      case None
      with Cons "1.IH" show ?thesis by simp
    next
      case (Some a)
      obtain cp n where a: "a = (cp, n)" by (cases a)
      have "1 \<le> n" using utf8_decode1_length [of s cp n] Some a by simp
      then have "length (drop n s) < length s" using Cons by simp
      with "1.IH" have "utf8_to_code_points False (drop n s) \<noteq> None" by blast
      with Some a show ?thesis by (simp add: utf8_to_code_points_step [of s cp n])
    qed
  qed
qed

text \<open>The converted text has at most one unit per byte, and at least one unit if there is a byte.\<close>

lemma utf8_to_code_points_units:
  "utf8_to_code_points strict s = Some cps \<Longrightarrow>
   length (utf16_of_code_points cps) \<le> length s \<and> (s \<noteq> [] \<longrightarrow> utf16_of_code_points cps \<noteq> [])"
proof (induction s arbitrary: cps rule: length_induct)
  case (1 s)
  show ?case
  proof (cases s)
    case Nil
    with "1.prems" show ?thesis by (simp add: utf16_of_code_points_def)
  next
    case (Cons b bs)
    show ?thesis
    proof (cases "utf8_decode1 s")
      case None
      with Cons "1.prems" obtain cr where
        cr: "utf8_to_code_points strict bs = Some cr" "cps = 0xFFFD # cr"
        by (auto split: if_splits)
      have "length bs < length s" using Cons by simp
      with "1.IH" cr(1) have "length (utf16_of_code_points cr) \<le> length bs" by blast
      with cr(2) Cons show ?thesis by (simp add: utf16_of_code_points_def utf16_encode_def)
    next
      case (Some a)
      obtain cp n where a: "a = (cp, n)" by (cases a)
      have n: "1 \<le> n" "n \<le> length s" using utf8_decode1_length [of s cp n] Some a by simp_all
      from Some a "1.prems" obtain cr where
        cr: "utf8_to_code_points strict (drop n s) = Some cr" "cps = cp # cr"
        by (auto simp: utf8_to_code_points_step [of s cp n])
      have "length (drop n s) < length s" using n Cons by simp
      with "1.IH" cr(1) have "length (utf16_of_code_points cr) \<le> length (drop n s)" by blast
      moreover have "length (utf16_encode cp) \<le> n" using Some a utf8_decode1_units by simp
      moreover have "1 \<le> length (utf16_encode cp)" using length_utf16_encode [of cp] by simp
      ultimately show ?thesis using cr(2) n by (auto simp: utf16_of_code_points_def)
    qed
  qed
qed

lemma flags_MB: "((if strict then MB_ERR_INVALID_CHARS else 0) AND MB_ERR_INVALID_CHARS \<noteq> 0) = strict"
  by (simp add: MB_ERR_INVALID_CHARS_def)

lemma flags_WC: "((if strict then WC_ERR_INVALID_CHARS else 0) AND WC_ERR_INVALID_CHARS \<noteq> 0) = strict"
  by (simp add: WC_ERR_INVALID_CHARS_def)

text \<open>\<open>u8widen\<close> on an input of a length between 1 and \<open>INT_MAX - 1\<close>.\<close>

lemma u8widen_converts:
  assumes "s \<noteq> []" "length s < INT_MAX"
  shows "u8widen s strict =
         (case utf8_to_code_points strict s of
            None \<Rightarrow> Inl (U8ConversionError ''utf8 to wide-string conversion failed.'')
          | Some cps \<Rightarrow> Inr (utf16_of_code_points cps))"
proof (cases "utf8_to_code_points strict s")
  case None
  with assms show ?thesis
    by (simp add: u8widen_def MultiByteToWideChar_def flags_MB)
next
  case (Some cps)
  from utf8_to_code_points_units [OF Some] assms
  have "length (utf16_of_code_points cps) \<le> INT_MAX" "utf16_of_code_points cps \<noteq> []"
    by simp_all
  with Some assms show ?thesis
    by (simp add: u8widen_def MultiByteToWideChar_def flags_MB Let_def)
qed

lemma u8widen_too_long:
  "INT_MAX \<le> length s \<Longrightarrow>
   u8widen s strict = Inl (U8ConversionError ''utf8 to wide-string conversion failed.'')"
  by (auto simp: u8widen_def INT_MAX_def)

section \<open>The buffer of sync on a valid stream\<close>

lemma ntpb_total: "\<exists>k. num_trailing_partial_bytes s = Inr k"
proof -
  let ?r = "length (takeWhile is_utf8_continuation (rev s))"
  have "\<not> is_utf8_continuation (rev s ! ?r)" if "?r < length s"
    using that nth_length_takeWhile [of is_utf8_continuation "rev s"] by simp
  then have "\<exists>n. num_succeeding_bytes (rev s ! ?r) = Inr n" if "?r < length s"
    using that by (auto simp: num_succeeding_bytes_range is_utf8_continuation_range)
  then show ?thesis
    by (auto simp: num_trailing_partial_bytes_rev Let_def)
qed

text \<open>
  The buffer of \<open>sync\<close> when the stream so far is the first \<open>m\<close> bytes of a valid string
  \<open>s\<close> and the next chunk \<open>c\<close> continues it: the withheld tail of the first \<open>m\<close> bytes
  followed by \<open>c\<close> is cut where the first \<open>m + length c\<close> bytes are cut.
\<close>

lemma sync_buffer_cut:
  assumes v: "valid_utf8 s" and m: "m + length c \<le> length s"
    and c: "c = take (length c) (drop m s)"
    and k: "num_trailing_partial_bytes (take m s) = Inr k"
  defines "buffer \<equiv> drop (m - k) (take m s) @ c"
  shows "\<exists>k'. num_trailing_partial_bytes (take (m + length c) s) = Inr k' \<and>
              num_trailing_partial_bytes buffer = Inr k' \<and> k' \<le> length buffer \<and>
              drop (length buffer - k') buffer =
                drop (m + length c - k') (take (m + length c) s) \<and>
              take (m + length c - k') s = take (m - k) s @ take (length buffer - k') buffer \<and>
              valid_utf8 (take (length buffer - k') buffer)"
proof -
  let ?m' = "m + length c"
  have mle: "m \<le> length s" using m by simp
  from ntpb_prefix_valid [OF v mle] k have
    km: "k \<le> m" and v1: "valid_utf8 (take (m - k) s)" and v2: "valid_utf8 (drop (m - k) s)"
    by auto
  from ntpb_prefix_valid [OF v m] obtain k' where
    k': "num_trailing_partial_bytes (take ?m' s) = Inr k'" "k' \<le> ?m'"
        "valid_utf8 (take (?m' - k') s)"
    by blast
  have P': "take ?m' s = take m s @ c"
    using take_add [of m "length c" s] c by simp
  have pre: "take m s = take (m - k) s @ drop (m - k) (take m s)"
    using append_take_drop_id [of "m - k" "take m s"] km by (simp add: min_def)
  have whole: "take ?m' s = take (m - k) s @ buffer"
    unfolding buffer_def P' using pre by simp
  have lb: "length buffer = k + length c"
    unfolding buffer_def using km mle by simp
  have lpre: "length (take (m - k) s) = m - k" using mle by simp
  have nb: "num_trailing_partial_bytes buffer = Inr k'"
  proof (cases "buffer = []")
    case True
    then have "k = 0" "c = []" using lb by auto
    with k k' True show ?thesis by (simp add: ntpb_Nil)
  next
    case False
    have "buffer = take (length buffer) (drop (m - k) s)"
    proof -
      have "take ?m' s = take ((m - k) + length buffer) s" using lb km by simp
      also have "\<dots> = take (m - k) s @ take (length buffer) (drop (m - k) s)"
        by (rule take_add)
      finally show ?thesis using whole by simp
    qed
    then have "hd buffer = hd (drop (m - k) s)" "drop (m - k) s \<noteq> []"
      using False by (metis hd_take length_greater_0_conv, auto)
    then have "\<not> is_utf8_continuation (hd buffer)"
      using valid_utf8_first [OF v2] by simp
    then have "\<exists>b\<in>set buffer. \<not> is_utf8_continuation b"
      using False hd_in_set by blast
    then have "num_trailing_partial_bytes (take (m - k) s @ buffer) =
               num_trailing_partial_bytes buffer"
      by (rule num_trailing_partial_bytes_local)
    with k'(1) whole show ?thesis by simp
  qed
  have kb: "k' \<le> length buffer" using nb by (rule num_trailing_partial_bytes_le)
  have idx: "?m' - k' = (m - k) + (length buffer - k')" using kb lb km by simp
  have dr: "drop (length buffer - k') buffer = drop (?m' - k') (take ?m' s)"
    unfolding whole idx using lpre by simp
  have "take (?m' - k') (take ?m' s) = take (m - k) s @ take (length buffer - k') buffer"
    unfolding whole idx using lpre by simp
  then have tk: "take (?m' - k') s = take (m - k) s @ take (length buffer - k') buffer"
    by (simp add: min_def)
  have "valid_utf8 (take (length buffer - k') buffer)"
    using k'(3) v1 unfolding tk by (simp add: valid_utf8_append)
  with k'(1) nb kb dr tk show ?thesis by blast
qed

section \<open>One call of sync\<close>

lemma writes_WriteConsoleW:
  "writes (snd (WriteConsoleW con buf)) = writes con @ [buf]"
  by (simp add: WriteConsoleW_def split: list.splits write_event.splits)

text \<open>What one call of \<open>sync\<close> does, by the cut of its buffer.\<close>

lemma sync_pending:
  "m_unwritten_partial_bytes (snd (sync this)) =
     withheld (m_unwritten_partial_bytes this @ str this) \<and>
   str (snd (sync this)) = []"
proof -
  obtain k where "num_trailing_partial_bytes (m_unwritten_partial_bytes this @ str this) = Inr k"
    using ntpb_total by blast
  then show ?thesis
    by (simp add: sync_def withheld_def Let_def split: sum.splits)
qed

lemma sync_silent:
  "released (m_unwritten_partial_bytes this @ str this) = [] \<Longrightarrow>
   fst (sync this) = Inr 0 \<and> m_handle (snd (sync this)) = m_handle this"
proof -
  obtain k where "num_trailing_partial_bytes (m_unwritten_partial_bytes this @ str this) = Inr k"
    using ntpb_total by blast
  then show "released (m_unwritten_partial_bytes this @ str this) = [] \<Longrightarrow> ?thesis"
    by (simp add: sync_def released_def Let_def)
qed

lemma sync_writes:
  "released (m_unwritten_partial_bytes this @ str this) \<noteq> [] \<Longrightarrow>
   u8widen (released (m_unwritten_partial_bytes this @ str this)) True = Inr w \<Longrightarrow>
   fst (sync this) = Inr 0 \<and>
   writes (m_handle (snd (sync this))) = writes (m_handle this) @ [w]"
proof -
  obtain k where "num_trailing_partial_bytes (m_unwritten_partial_bytes this @ str this) = Inr k"
    using ntpb_total by blast
  then show "released (m_unwritten_partial_bytes this @ str this) \<noteq> [] \<Longrightarrow>
   u8widen (released (m_unwritten_partial_bytes this @ str this)) True = Inr w \<Longrightarrow> ?thesis"
    by (simp add: sync_def released_def Let_def u8_default_throw_def writes_WriteConsoleW)
qed

lemma sync_raises:
  "released (m_unwritten_partial_bytes this @ str this) \<noteq> [] \<Longrightarrow>
   u8widen (released (m_unwritten_partial_bytes this @ str this)) True = Inl e \<Longrightarrow>
   fst (sync this) = Inl e \<and> m_handle (snd (sync this)) = m_handle this"
proof -
  obtain k where "num_trailing_partial_bytes (m_unwritten_partial_bytes this @ str this) = Inr k"
    using ntpb_total by blast
  then show "released (m_unwritten_partial_bytes this @ str this) \<noteq> [] \<Longrightarrow>
   u8widen (released (m_unwritten_partial_bytes this @ str this)) True = Inl e \<Longrightarrow> ?thesis"
    by (simp add: sync_def released_def Let_def u8_default_throw_def)
qed

lemma cut_step:
  assumes v: "valid_utf8 s" and m: "m + length c \<le> length s"
    and c: "c = take (length c) (drop m s)"
  shows "withheld (withheld (take m s) @ c) = withheld (take (m + length c) s) \<and>
         released (take (m + length c) s) =
           released (take m s) @ released (withheld (take m s) @ c) \<and>
         valid_utf8 (released (take m s)) \<and>
         valid_utf8 (released (withheld (take m s) @ c))"
proof -
  have mle: "m \<le> length s" using m by simp
  obtain k where k: "num_trailing_partial_bytes (take m s) = Inr k"
    using ntpb_total by blast
  from ntpb_prefix_valid [OF v mle] k have
    km: "k \<le> m" and v1: "valid_utf8 (take (m - k) s)" by auto
  have w: "withheld (take m s) = drop (m - k) (take m s)"
    using k mle by (simp add: withheld_def)
  have r: "released (take m s) = take (m - k) s"
    using k mle by (simp add: released_def min_def)
  let ?buffer = "drop (m - k) (take m s) @ c"
  from sync_buffer_cut [OF v m c k] obtain k' where
    k': "num_trailing_partial_bytes (take (m + length c) s) = Inr k'"
        "num_trailing_partial_bytes ?buffer = Inr k'"
        "drop (length ?buffer - k') ?buffer =
           drop (m + length c - k') (take (m + length c) s)"
        "take (m + length c - k') s = take (m - k) s @ take (length ?buffer - k') ?buffer"
        "valid_utf8 (take (length ?buffer - k') ?buffer)"
    by blast
  have w': "withheld (take (m + length c) s) =
            drop (m + length c - k') (take (m + length c) s)"
    using k'(1) m by (simp add: withheld_def)
  have r': "released (take (m + length c) s) = take (m + length c - k') s"
    using k'(1) m by (simp add: released_def min_def)
  have wb: "withheld ?buffer = drop (length ?buffer - k') ?buffer"
    using k'(2) by (simp add: withheld_def)
  have rb: "released ?buffer = take (length ?buffer - k') ?buffer"
    using k'(2) by (simp add: released_def)
  show ?thesis
    unfolding w r w' r' wb rb using k'(3,4,5) v1 by simp
qed

lemma pending_state_step:
  assumes v: "valid_utf8 s" and st: "pending_state s m st"
    and m: "m + length c \<le> length s" and c: "c = take (length c) (drop m s)"
  shows "pending_state s (m + length c) (snd (sync (sputn st c)))"
proof -
  have "m_unwritten_partial_bytes (sputn st c) @ str (sputn st c) =
        withheld (take m s) @ c"
    using st by (simp add: pending_state_def sputn_def)
  with sync_pending [of "sputn st c"] cut_step [OF v m c] m
  show ?thesis by (simp add: pending_state_def)
qed

lemma utf16_of_code_points_append:
  "utf16_of_code_points (a @ b) = utf16_of_code_points a @ utf16_of_code_points b"
  by (simp add: utf16_of_code_points_def)

lemma stream_state_step:
  assumes v: "valid_utf8 s" and len: "length s < INT_MAX"
    and st: "stream_state s w0 m st"
    and m: "m + length c \<le> length s" and c: "c = take (length c) (drop m s)"
  shows "fst (sync (sputn st c)) = Inr 0 \<and>
         stream_state s w0 (m + length c) (snd (sync (sputn st c)))"
proof -
  let ?st = "sputn st c"
  let ?rel = "released (withheld (take m s) @ c)"
  from st have ps: "pending_state s m st" by (simp add: stream_state_def)
  have buf: "m_unwritten_partial_bytes ?st @ str ?st = withheld (take m s) @ c"
    using ps by (simp add: pending_state_def sputn_def)
  have h: "m_handle ?st = m_handle st" by (simp add: sputn_def)
  from cut_step [OF v m c] have
    r: "released (take (m + length c) s) = released (take m s) @ ?rel"
    and v0: "valid_utf8 (released (take m s))" and vr: "valid_utf8 ?rel" by simp_all
  from v0 obtain ca where ca: "utf8_to_code_points True (released (take m s)) = Some ca"
    by (auto simp: valid_utf8_def)
  from vr obtain cr where cr: "utf8_to_code_points True ?rel = Some cr"
    by (auto simp: valid_utf8_def)
  have cb: "utf8_to_code_points True (released (take (m + length c) s)) = Some (ca @ cr)"
    unfolding r using utf8_to_code_points_append [OF ca, of True ?rel] cr by simp
  from st ca have w: "concat (writes (m_handle st)) = w0 @ utf16_of_code_points ca"
    by (simp add: stream_state_def)
  have ps': "pending_state s (m + length c) (snd (sync ?st))"
    using v ps m c by (rule pending_state_step)
  show ?thesis
  proof (cases "?rel = []")
    case True
    then have "cr = []" using cr by simp
    moreover have "fst (sync ?st) = Inr 0 \<and> m_handle (snd (sync ?st)) = m_handle ?st"
      using True buf sync_silent [of ?st] by simp
    ultimately show ?thesis
      using ps' cb w h by (simp add: stream_state_def utf16_of_code_points_def)
  next
    case False
    have "length (released (take (m + length c) s)) \<le> length s"
      using m by (auto simp: released_def split: sum.splits)
    then have "length ?rel < INT_MAX" using len unfolding r by simp
    with False cr have "u8widen ?rel True = Inr (utf16_of_code_points cr)"
      by (simp add: u8widen_converts)
    with False buf sync_writes [of ?st "utf16_of_code_points cr"]
    have "fst (sync ?st) = Inr 0 \<and>
          writes (m_handle (snd (sync ?st))) = writes (m_handle ?st) @ [utf16_of_code_points cr]"
      by simp
    then show ?thesis
      using ps' cb w h by (simp add: stream_state_def utf16_of_code_points_append)
  qed
qed

section \<open>Feeding chunks\<close>

lemma prefix_concat_Cons:
  assumes "prefix (concat (c # cs)) (drop m s)" "m \<le> length s"
  shows "m + length c \<le> length s" "c = take (length c) (drop m s)"
    "prefix (concat cs) (drop (m + length c) s)"
proof -
  from assms obtain z where z: "drop m s = c @ concat cs @ z"
    by (auto simp: prefix_def)
  then have "length (drop m s) = length c + length (concat cs @ z)" by simp
  then show "m + length c \<le> length s" using assms(2) by simp
  show "c = take (length c) (drop m s)" using z by simp
  have "drop (m + length c) s = drop (length c) (drop m s)" by (simp add: add.commute)
  then show "prefix (concat cs) (drop (m + length c) s)" using z by simp
qed

lemma feed_stream_state:
  "valid_utf8 s \<Longrightarrow> length s < INT_MAX \<Longrightarrow> stream_state s w0 m st \<Longrightarrow>
   prefix (concat cs) (drop m s) \<Longrightarrow>
   fst (feed st cs) = Inr 0 \<and> stream_state s w0 (m + length (concat cs)) (snd (feed st cs))"
proof (induction cs arbitrary: st m)
  case Nil
  then show ?case by simp
next
  case (Cons c cs)
  have "m \<le> length s" using Cons.prems(3) by (simp add: stream_state_def pending_state_def)
  note p = prefix_concat_Cons [OF Cons.prems(4) this]
  from stream_state_step [OF Cons.prems(1,2,3) p(1,2)] have
    step: "fst (sync (sputn st c)) = Inr 0"
          "stream_state s w0 (m + length c) (snd (sync (sputn st c)))" by simp_all
  obtain st' where st': "sync (sputn st c) = (Inr 0, st')"
    using step(1) by (cases "sync (sputn st c)") auto
  with step(2) have "stream_state s w0 (m + length c) st'" by simp
  from Cons.IH [OF Cons.prems(1,2) this p(3)] st'
  show ?case by (simp add: add.assoc)
qed

lemma feed_pending_state:
  "valid_utf8 s \<Longrightarrow> pending_state s m st \<Longrightarrow> prefix (concat cs) (drop m s) \<Longrightarrow>
   \<exists>m'. pending_state s m' (snd (feed st cs))"
proof (induction cs arbitrary: st m)
  case Nil
  then show ?case by auto
next
  case (Cons c cs)
  have "m \<le> length s" using Cons.prems(2) by (simp add: pending_state_def)
  note p = prefix_concat_Cons [OF Cons.prems(3) this]
  have step: "pending_state s (m + length c) (snd (sync (sputn st c)))"
    using Cons.prems(1,2) p(1,2) by (rule pending_state_step)
  obtain r st' where st': "sync (sputn st c) = (r, st')"
    by (cases "sync (sputn st c)")
  with step have ps: "pending_state s (m + length c) st'" by simp
  show ?case
  proof (cases r)
    case (Inl e)
    with st' ps show ?thesis by auto
  next
    case (Inr x)
    with st' Cons.IH [OF Cons.prems(1) ps p(3)] show ?thesis by simp
  qed
qed

text \<open>The withheld tail of a prefix of a valid string.\<close>

lemma withheld_shape:
  assumes v: "valid_utf8 s" and m: "m \<le> length s"
  defines "p \<equiv> withheld (take m s)"
  shows "length p < 4 \<and>
         (p = [] \<or>
          (\<exists>rest cp. utf8_decode1 (p @ rest) = Some (cp, length (p @ rest)) \<and>
             2 \<le> length (p @ rest) \<and> (rest = [] \<longrightarrow> 0xE0 \<le> hd p \<and> hd p \<le> 0xEF)))"
proof -
  from ntpb_prefix_valid [OF v m] obtain k where
    k: "num_trailing_partial_bytes (take m s) = Inr k" "k \<le> m" "k \<le> 3"
       "0 < k \<longrightarrow> (\<exists>cp n. utf8_decode1 (drop (m - k) s) = Some (cp, n) \<and>
                      2 \<le> n \<and> k \<le> n \<and> (k = n \<longrightarrow> n = 3))"
    by blast
  let ?x = "drop (m - k) s"
  have p: "p = take k ?x"
    unfolding p_def using k(1,2) m by (simp add: withheld_def drop_take)
  have lp: "length p = k" unfolding p using k(2) m by simp
  show ?thesis
  proof (cases "k = 0")
    case True
    with lp show ?thesis by simp
  next
    case False
    with k(4) obtain cp n where
      d: "utf8_decode1 ?x = Some (cp, n)" and n: "2 \<le> n" "k \<le> n" "k = n \<longrightarrow> n = 3"
      by auto
    have nx: "n \<le> length ?x" using utf8_decode1_length [OF d] by simp
    let ?rest = "drop k (take n ?x)"
    have "take k ?x = take k (take n ?x)" using n(2) by (simp add: min_def)
    then have pr: "p @ ?rest = take n ?x" unfolding p by (simp del: take_take)
    have d': "utf8_decode1 (take n ?x) = Some (cp, n)"
      using utf8_decode1_local [OF d, of "[]"] by simp
    have ln: "length (take n ?x) = n" using nx by simp
    have "0xE0 \<le> hd p \<and> hd p \<le> 0xEF" if "?rest = []"
    proof -
      from that ln have "n \<le> k" by simp
      with n have n3: "n = 3" by simp
      have "hd p = hd ?x" unfolding p using False by (simp add: hd_take)
      moreover have "0xE0 \<le> hd ?x \<and> hd ?x \<le> 0xEF"
        using d n3 by (cases rule: utf8_decode1_cases) simp_all
      ultimately show ?thesis by simp
    qed
    with d' ln n(1) pr have
      "utf8_decode1 (p @ ?rest) = Some (cp, length (p @ ?rest)) \<and>
       2 \<le> length (p @ ?rest) \<and> (?rest = [] \<longrightarrow> 0xE0 \<le> hd p \<and> hd p \<le> 0xEF)"
      by simp
    then show ?thesis using lp k(3) by (intro conjI disjI2 exI [of _ ?rest] exI [of _ cp]) simp_all
  qed
qed

section \<open>Chunk invariance and the pending tail\<close>

lemma withheld_Nil: "withheld [] = []"
  by (simp add: withheld_def ntpb_Nil)

lemma released_Nil: "released [] = []"
  by (simp add: released_def ntpb_Nil)

lemma new_ostreambuf_state: "stream_state s (concat (writes con)) 0 (new_ostreambuf con)"
  by (simp add: stream_state_def pending_state_def new_ostreambuf_def withheld_Nil released_Nil
      utf16_of_code_points_def)

text \<open>
  C3, amended.  For every valid UTF-8 string \<open>s\<close> of fewer than \<open>INT_MAX\<close> bytes and
  every way of splitting \<open>s\<close> into consecutive chunks, feeding the chunks to \<open>sync\<close> in
  order on a new adapter raises nothing and produces the same concatenated sequence of
  terminal writes as delivering \<open>s\<close> in a single call, and withholds the same bytes; the
  splits may fall inside a multi-byte sequence.
\<close>

theorem chunk_invariance:
  assumes "valid_utf8 s" "length s < INT_MAX" "concat cs = s"
  shows "fst (feed (new_ostreambuf con) cs) = Inr 0 \<and>
         fst (feed (new_ostreambuf con) [s]) = Inr 0 \<and>
         concat (writes (m_handle (snd (feed (new_ostreambuf con) cs)))) =
         concat (writes (m_handle (snd (feed (new_ostreambuf con) [s])))) \<and>
         m_unwritten_partial_bytes (snd (feed (new_ostreambuf con) cs)) =
         m_unwritten_partial_bytes (snd (feed (new_ostreambuf con) [s]))"
proof -
  let ?st = "new_ostreambuf con" and ?w0 = "concat (writes con)"
  have st: "stream_state s ?w0 0 ?st" by (rule new_ostreambuf_state)
  have "prefix (concat cs) (drop 0 s)" using assms(3) by simp
  from feed_stream_state [OF assms(1,2) st this] assms(3)
  have a: "fst (feed ?st cs) = Inr 0" "stream_state s ?w0 (length s) (snd (feed ?st cs))"
    by simp_all
  have "prefix (concat [s]) (drop 0 s)" by simp
  from feed_stream_state [OF assms(1,2) st this]
  have b: "fst (feed ?st [s]) = Inr 0" "stream_state s ?w0 (length s) (snd (feed ?st [s]))"
    by simp_all
  from a(2) b(2) have
    "concat (writes (m_handle (snd (feed ?st cs)))) =
     concat (writes (m_handle (snd (feed ?st [s]))))"
    "m_unwritten_partial_bytes (snd (feed ?st cs)) =
     m_unwritten_partial_bytes (snd (feed ?st [s]))"
    by (auto simp: stream_state_def pending_state_def split: option.splits)
  with a(1) b(1) show ?thesis by simp
qed

lemmas utf8_eval = valid_utf8_def tail_byte_ok_def second_byte_ok_def

theorem chunk_invariance_witness:
  "valid_utf8 [0xE2, 0x82, 0xAC, 0x41] \<and> length [0xE2, 0x82, 0xAC, 0x41 :: byte] < INT_MAX \<and>
   concat [[0xE2], [0x82, 0xAC, 0x41]] = [0xE2, 0x82, 0xAC, 0x41 :: byte] \<and>
   concat (writes (m_handle (snd (feed (new_ostreambuf \<lparr>outcomes = [], writes = []\<rparr>)
     [[0xE2], [0x82, 0xAC, 0x41]])))) =
   concat (writes (m_handle (snd (feed (new_ostreambuf \<lparr>outcomes = [], writes = []\<rparr>)
     [[0xE2, 0x82, 0xAC, 0x41]]))))"
proof -
  have h: "valid_utf8 [0xE2, 0x82, 0xAC, 0x41]" "length [0xE2, 0x82, 0xAC, 0x41 :: byte] < INT_MAX"
    "concat [[0xE2], [0x82, 0xAC, 0x41]] = [0xE2, 0x82, 0xAC, 0x41 :: byte]"
    by (simp_all add: utf8_eval INT_MAX_def)
  from chunk_invariance [OF h, of "\<lparr>outcomes = [], writes = []\<rparr>"] h show ?thesis by simp
qed

text \<open>
  C4, amended.  For every sequence of chunks that together are a prefix of a valid UTF-8
  string, after every \<open>sync\<close> call the pending tail has fewer than 4 bytes and is either
  empty or a prefix of a well-formed multi-byte sequence; the prefix is strict unless its
  lead byte has the shape \<open>1110xxxx\<close>.
\<close>

theorem pending_tail_invariant:
  assumes "valid_utf8 s" "prefix (concat cs) s"
  shows "length (m_unwritten_partial_bytes (snd (feed (new_ostreambuf con) cs))) < 4 \<and>
         (m_unwritten_partial_bytes (snd (feed (new_ostreambuf con) cs)) = [] \<or>
          (\<exists>rest cp.
             utf8_decode1 (m_unwritten_partial_bytes (snd (feed (new_ostreambuf con) cs)) @ rest) =
               Some (cp, length (m_unwritten_partial_bytes (snd (feed (new_ostreambuf con) cs)) @ rest)) \<and>
             2 \<le> length (m_unwritten_partial_bytes (snd (feed (new_ostreambuf con) cs)) @ rest) \<and>
             (rest = [] \<longrightarrow>
                0xE0 \<le> hd (m_unwritten_partial_bytes (snd (feed (new_ostreambuf con) cs))) \<and>
                hd (m_unwritten_partial_bytes (snd (feed (new_ostreambuf con) cs))) \<le> 0xEF)))"
proof -
  have "pending_state s 0 (new_ostreambuf con)"
    using new_ostreambuf_state [of s con] by (simp add: stream_state_def)
  moreover have "prefix (concat cs) (drop 0 s)" using assms(2) by simp
  ultimately obtain m' where "pending_state s m' (snd (feed (new_ostreambuf con) cs))"
    using feed_pending_state [OF assms(1)] by blast
  then have "m' \<le> length s"
    "m_unwritten_partial_bytes (snd (feed (new_ostreambuf con) cs)) = withheld (take m' s)"
    by (simp_all add: pending_state_def)
  with withheld_shape [OF assms(1), of m'] show ?thesis by simp
qed

theorem pending_tail_invariant_witness:
  "valid_utf8 [0xF0, 0x9F, 0x98, 0x80] \<and>
   prefix (concat [[0xF0, 0x9F], [0x98]]) [0xF0, 0x9F, 0x98, 0x80 :: byte] \<and>
   length (m_unwritten_partial_bytes (snd (feed (new_ostreambuf \<lparr>outcomes = [], writes = []\<rparr>)
     [[0xF0, 0x9F], [0x98]]))) < 4"
proof -
  have h: "valid_utf8 [0xF0, 0x9F, 0x98, 0x80]"
    "prefix (concat [[0xF0, 0x9F], [0x98]]) [0xF0, 0x9F, 0x98, 0x80 :: byte]"
    by (simp_all add: utf8_eval)
  from pending_tail_invariant [OF h, of "\<lparr>outcomes = [], writes = []\<rparr>"] h show ?thesis by simp
qed

lemma ntpb_five_continuation:
  "num_trailing_partial_bytes [0x80, 0x80, 0x80, 0x80, 0x80] = Inr 5"
  by code_simp

text \<open>
  C4 as stated fails on input that is not valid UTF-8: five continuation bytes are all
  withheld.
\<close>

theorem pending_tail_counterexample:
  "m_unwritten_partial_bytes (snd (feed (new_ostreambuf \<lparr>outcomes = [], writes = []\<rparr>)
     [[0x80, 0x80, 0x80, 0x80, 0x80]])) = [0x80, 0x80, 0x80, 0x80, 0x80] \<and>
   \<not> length (m_unwritten_partial_bytes (snd (feed (new_ostreambuf \<lparr>outcomes = [], writes = []\<rparr>)
     [[0x80, 0x80, 0x80, 0x80, 0x80]]))) < 4"
proof -
  let ?st = "sputn (new_ostreambuf \<lparr>outcomes = [], writes = []\<rparr>) [0x80, 0x80, 0x80, 0x80, 0x80]"
  have "m_unwritten_partial_bytes ?st @ str ?st = [0x80, 0x80, 0x80, 0x80, 0x80]"
    by (simp add: sputn_def new_ostreambuf_def)
  with sync_pending [of ?st]
  have "m_unwritten_partial_bytes (snd (sync ?st)) = [0x80, 0x80, 0x80, 0x80, 0x80]"
    by (simp add: withheld_def ntpb_five_continuation)
  then show ?thesis
    by (cases "sync ?st") (auto split: sum.splits)
qed

lemma utf8_to_code_points_ascii:
  "\<forall>b\<in>set s. b \<le> 0x7F \<Longrightarrow> utf8_to_code_points strict s = Some (map unat s)"
  by (induction s) auto

lemma valid_utf8_ascii: "\<forall>b\<in>set s. b \<le> 0x7F \<Longrightarrow> valid_utf8 s"
  by (simp add: valid_utf8_def utf8_to_code_points_ascii)

lemma released_ascii_end: "b \<le> 0x7F \<Longrightarrow> released (pre @ [b]) = pre @ [b]"
  by (simp add: released_def ntpb_single_ascii)

lemma withheld_ascii_end: "b \<le> 0x7F \<Longrightarrow> withheld (pre @ [b]) = []"
  by (simp add: withheld_def ntpb_single_ascii)

text \<open>
  C3 as stated fails on a string of \<open>INT_MAX\<close> bytes: in two chunks both are written, in
  one call \<open>u8widen\<close> rejects the length and nothing is written.
\<close>

theorem chunk_invariance_counterexample:
  "valid_utf8 (replicate 2147483647 0x41) \<and>
   concat [replicate 2147483646 0x41, [0x41]] = replicate 2147483647 (0x41 :: byte) \<and>
   [] \<notin> set [replicate 2147483646 0x41, [0x41 :: byte]] \<and>
   concat (writes (m_handle (snd (feed (new_ostreambuf \<lparr>outcomes = [], writes = []\<rparr>)
     [replicate 2147483646 0x41, [0x41]])))) \<noteq>
   concat (writes (m_handle (snd (feed (new_ostreambuf \<lparr>outcomes = [], writes = []\<rparr>)
     [replicate 2147483647 0x41]))))"
proof -
  let ?con = "\<lparr>outcomes = [], writes = []\<rparr>"
  let ?new = "new_ostreambuf ?con"
  let ?A = "replicate 2147483646 (0x41 :: byte)"
  let ?S = "replicate 2147483647 (0x41 :: byte)"
  have "(2147483647 :: nat) = Suc 2147483646" by simp
  then have "?S = 0x41 # ?A" by (simp only: replicate_Suc)
  then have S: "?S = ?A @ [0x41]" by (simp only: replicate_append_same)
  have "(2147483646 :: nat) = Suc 2147483645" by simp
  then have "?A = 0x41 # replicate 2147483645 0x41" by (simp only: replicate_Suc)
  then have A: "?A = replicate 2147483645 0x41 @ [0x41]" by (simp only: replicate_append_same)
  have vS: "valid_utf8 ?S" by (rule valid_utf8_ascii) simp
  have vA: "valid_utf8 ?A" by (rule valid_utf8_ascii) simp
  have c: "concat [?A, [0x41]] = ?S" using S by simp
  have ne: "[] \<notin> set [?A, [0x41 :: byte]]" by simp
  \<comment> \<open>the first chunk is written\<close>
  have "0 + length ?A \<le> length ?A" "?A = take (length ?A) (drop 0 ?A)" by simp_all
  from stream_state_step [OF vA _ new_ostreambuf_state this, of ?con]
  have 1: "fst (sync (sputn ?new ?A)) = Inr 0"
    "stream_state ?A (concat (writes ?con)) (length ?A) (snd (sync (sputn ?new ?A)))"
    by (simp_all add: INT_MAX_def)
  obtain st1 where st1: "sync (sputn ?new ?A) = (Inr 0, st1)"
    using 1(1) by (cases "sync (sputn ?new ?A)") auto
  with 1(2) have s1: "stream_state ?A [] (length ?A) st1" by simp
  have "withheld ?A = []" by (subst A) (simp add: withheld_ascii_end)
  with s1 have p1: "str st1 = []" "m_unwritten_partial_bytes st1 = []"
    by (simp_all add: stream_state_def pending_state_def)
  then have s1': "stream_state [0x41] (concat (writes (m_handle st1))) 0 st1"
    by (simp add: stream_state_def pending_state_def withheld_Nil released_Nil
        utf16_of_code_points_def)
  \<comment> \<open>and so is the second\<close>
  have v1: "valid_utf8 [0x41]" by (rule valid_utf8_ascii) simp
  have "prefix (concat [[0x41 :: byte]]) (drop 0 [0x41])" by simp
  from feed_stream_state [OF v1 _ s1' this]
  have 2: "stream_state [0x41] (concat (writes (m_handle st1))) 1 (snd (feed st1 [[0x41]]))"
    by (simp add: INT_MAX_def)
  have "released [0x41 :: byte] = [0x41]"
    using released_ascii_end [of "0x41" "[]"] by simp
  with 2 have "concat (writes (m_handle (snd (feed st1 [[0x41]])))) =
               concat (writes (m_handle st1)) @ [0x41]"
    by (simp add: stream_state_def utf16_of_code_points_def utf16_encode_def)
  then have lhs: "concat (writes (m_handle (snd (feed ?new [?A, [0x41]])))) \<noteq> []"
    using st1 by simp
  \<comment> \<open>the whole string in one call is too long for \<open>u8widen\<close>\<close>
  let ?big = "sputn ?new ?S"
  have buf: "m_unwritten_partial_bytes ?big @ str ?big = ?S"
    by (simp add: sputn_def new_ostreambuf_def)
  have rel: "released ?S = ?S" by (subst (1 2) S) (simp add: released_ascii_end)
  have "u8widen ?S True = Inl (U8ConversionError ''utf8 to wide-string conversion failed.'')"
    by (rule u8widen_too_long) (simp add: INT_MAX_def)
  with sync_raises [of ?big] buf rel
  have "fst (sync ?big) = Inl (U8ConversionError ''utf8 to wide-string conversion failed.'')"
    "m_handle (snd (sync ?big)) = m_handle ?big" by simp_all
  then have rhs: "concat (writes (m_handle (snd (feed ?new [?S])))) = []"
    by (cases "sync ?big") (simp add: sputn_def new_ostreambuf_def)
  have neq: "concat (writes (m_handle (snd (feed ?new [?A, [0x41]])))) \<noteq>
             concat (writes (m_handle (snd (feed ?new [?S]))))"
    unfolding rhs by (rule lhs)
  show ?thesis by (intro conjI) (rule vS, rule c, rule ne, rule neq)
qed

section \<open>Round trip of one code point\<close>

lemma digit_low: "b < d \<Longrightarrow> (a * d + b) mod d = (b :: nat)"
  by simp

lemma digit_high: "b < d \<Longrightarrow> (a * d + b) div d = (a :: nat)"
  by simp

text \<open>The digits to base 64 of a code point.\<close>

lemma digits4:
  fixes a0 a1 a2 a3 :: nat
  assumes "a1 < 64" "a2 < 64" "a3 < 64"
  defines "cp \<equiv> a0 * 262144 + a1 * 4096 + a2 * 64 + a3"
  shows "cp div 262144 = a0" "cp div 4096 mod 64 = a1" "cp div 64 mod 64 = a2" "cp mod 64 = a3"
proof -
  have e1: "cp = (a0 * 4096 + a1 * 64 + a2) * 64 + a3" by (simp add: cp_def)
  show "cp mod 64 = a3" unfolding e1 using assms(3) by (rule digit_low)
  have d1: "cp div 64 = (a0 * 64 + a1) * 64 + a2"
    unfolding e1 using digit_high [OF assms(3), of "a0 * 4096 + a1 * 64 + a2"] by simp
  show "cp div 64 mod 64 = a2" unfolding d1 using assms(2) by (rule digit_low)
  have "cp div 4096 = cp div 64 div 64" by (simp add: div_mult2_eq [symmetric])
  also have "\<dots> = a0 * 64 + a1" unfolding d1 using assms(2) by (rule digit_high)
  finally have d2: "cp div 4096 = a0 * 64 + a1" .
  show "cp div 4096 mod 64 = a1" unfolding d2 using assms(1) by (rule digit_low)
  have "cp div 262144 = cp div 4096 div 64" by (simp add: div_mult2_eq [symmetric])
  also have "\<dots> = a0" unfolding d2 using assms(1) by (rule digit_high)
  finally show "cp div 262144 = a0" .
qed

lemma digits3:
  fixes a0 a1 a2 :: nat
  assumes "a1 < 64" "a2 < 64"
  defines "cp \<equiv> a0 * 4096 + a1 * 64 + a2"
  shows "cp div 4096 = a0" "cp div 64 mod 64 = a1" "cp mod 64 = a2"
proof -
  have e1: "cp = (a0 * 64 + a1) * 64 + a2" by (simp add: cp_def)
  show "cp mod 64 = a2" unfolding e1 using assms(2) by (rule digit_low)
  have d1: "cp div 64 = a0 * 64 + a1" unfolding e1 using assms(2) by (rule digit_high)
  show "cp div 64 mod 64 = a1" unfolding d1 using assms(1) by (rule digit_low)
  have "cp div 4096 = cp div 64 div 64" by (simp add: div_mult2_eq [symmetric])
  also have "\<dots> = a0" unfolding d1 using assms(1) by (rule digit_high)
  finally show "cp div 4096 = a0" .
qed

lemma digits2:
  fixes a0 a1 :: nat
  assumes "a1 < 64"
  defines "cp \<equiv> a0 * 64 + a1"
  shows "cp div 64 = a0" "cp mod 64 = a1"
  unfolding cp_def using assms by simp_all

lemma bounds3:
  fixes a0 a1 a2 :: nat
  assumes "a0 \<le> 15" "a1 < 64" "a2 < 64" "a0 = 0 \<longrightarrow> 32 \<le> a1" "a0 = 13 \<longrightarrow> a1 \<le> 31"
  defines "cp \<equiv> a0 * 4096 + a1 * 64 + a2"
  shows "2048 \<le> cp" "cp < 65536" "cp < 55296 \<or> 57344 \<le> cp"
proof -
  show "2048 \<le> cp"
  proof (cases "a0 = 0")
    case True
    with assms(4) have "32 \<le> a1" by simp
    then show ?thesis unfolding cp_def by simp
  next
    case False
    then have "1 \<le> a0" by simp
    then show ?thesis unfolding cp_def by simp
  qed
  show "cp < 65536" unfolding cp_def using assms(1,2,3) by simp
  consider "a0 \<le> 12" | "a0 = 13" | "14 \<le> a0" by linarith
  then show "cp < 55296 \<or> 57344 \<le> cp"
  proof cases
    case 1
    then show ?thesis unfolding cp_def using assms(2,3) by simp
  next
    case 2
    with assms(5) have "a1 \<le> 31" by simp
    with 2 show ?thesis unfolding cp_def using assms(3) by simp
  next
    case 3
    then show ?thesis unfolding cp_def by simp
  qed
qed

lemma bounds4:
  fixes a0 a1 a2 a3 :: nat
  assumes "a0 \<le> 4" "a1 < 64" "a2 < 64" "a3 < 64" "a0 = 0 \<longrightarrow> 16 \<le> a1" "a0 = 4 \<longrightarrow> a1 \<le> 15"
  defines "cp \<equiv> a0 * 262144 + a1 * 4096 + a2 * 64 + a3"
  shows "65536 \<le> cp" "cp \<le> 1114111"
proof -
  show "65536 \<le> cp"
  proof (cases "a0 = 0")
    case True
    with assms(5) have "16 \<le> a1" by simp
    then show ?thesis unfolding cp_def by simp
  next
    case False
    then have "1 \<le> a0" by simp
    then show ?thesis unfolding cp_def by simp
  qed
  show "cp \<le> 1114111"
  proof (cases "a0 = 4")
    case True
    with assms(6) have "a1 \<le> 15" by simp
    with True show ?thesis unfolding cp_def using assms(3,4) by simp
  next
    case False
    with assms(1) have "a0 \<le> 3" by simp
    then show ?thesis unfolding cp_def using assms(2,3,4) by simp
  qed
qed

text \<open>Encoding the code point of a well-formed sequence gives the sequence back.\<close>

lemma utf8_encode_decode1:
  assumes "utf8_decode1 bs = Some (cp, n)"
  shows "utf8_encode cp = take n bs \<and> scalar_value cp"
  using assms
proof (cases rule: utf8_decode1_cases)
  case (one b0 r)
  then have "unat b0 \<le> 127" by (simp add: word_le_nat_alt)
  with one show ?thesis by (simp add: utf8_encode_def scalar_value_def)
next
  case (two b0 b1 r)
  define a0 a1 where "a0 = unat b0 - 192" and "a1 = unat b1 - 128"
  have r: "2 \<le> a0" "a0 \<le> 31" "a1 < 64" "192 + a0 = unat b0" "128 + a1 = unat b1"
    using two by (auto simp: a0_def a1_def tail_byte_ok_def word_le_nat_alt)
  have cp: "cp = a0 * 64 + a1" using two by (simp add: a0_def a1_def)
  have b: "128 \<le> cp" "cp < 2048" using r(1,2,3) unfolding cp by simp_all
  have d: "192 + cp div 64 = unat b0" "128 + cp mod 64 = unat b1"
    unfolding cp using digits2 [OF r(3), of a0] r(4,5) by simp_all
  have "utf8_encode cp = [word_of_nat (192 + cp div 64), word_of_nat (128 + cp mod 64)]"
    using b by (simp add: utf8_encode_def)
  then have "utf8_encode cp = [b0, b1]" unfolding d by simp
  then show ?thesis
    using b two(1,5) by (simp add: scalar_value_def)
next
  case (three b0 b1 b2 r)
  define a0 a1 a2 where "a0 = unat b0 - 224" and "a1 = unat b1 - 128" and "a2 = unat b2 - 128"
  have r: "a0 \<le> 15" "a1 < 64" "a2 < 64" "224 + a0 = unat b0" "128 + a1 = unat b1"
    "128 + a2 = unat b2" "a0 = 0 \<longrightarrow> 32 \<le> a1" "a0 = 13 \<longrightarrow> a1 \<le> 31"
    using three second_byte_ok_tail [of b0 b1]
    by (auto simp: a0_def a1_def a2_def tail_byte_ok_def second_byte_ok_def word_le_nat_alt
        word_unat_eq_iff split: if_splits)
  have cp: "cp = a0 * 4096 + a1 * 64 + a2"
    using three by (simp add: a0_def a1_def a2_def)
  have b: "2048 \<le> cp" "cp < 65536" "cp < 55296 \<or> 57344 \<le> cp"
    unfolding cp using bounds3 [OF r(1,2,3,7,8)] by simp_all
  have d: "224 + cp div 4096 = unat b0" "128 + cp div 64 mod 64 = unat b1"
    "128 + cp mod 64 = unat b2"
    unfolding cp using digits3 [OF r(2,3), of a0] r(4,5,6) by simp_all
  have "utf8_encode cp = [word_of_nat (224 + cp div 4096), word_of_nat (128 + cp div 64 mod 64),
          word_of_nat (128 + cp mod 64)]"
    using b by (simp add: utf8_encode_def)
  then have "utf8_encode cp = [b0, b1, b2]" unfolding d by simp
  then show ?thesis
    using b three(1,6) by (auto simp: scalar_value_def)
next
  case (four b0 b1 b2 b3 r)
  define a0 a1 a2 a3 where "a0 = unat b0 - 240" and "a1 = unat b1 - 128"
    and "a2 = unat b2 - 128" and "a3 = unat b3 - 128"
  have r: "a0 \<le> 4" "a1 < 64" "a2 < 64" "a3 < 64" "240 + a0 = unat b0" "128 + a1 = unat b1"
    "128 + a2 = unat b2" "128 + a3 = unat b3" "a0 = 0 \<longrightarrow> 16 \<le> a1" "a0 = 4 \<longrightarrow> a1 \<le> 15"
    using four second_byte_ok_tail [of b0 b1]
    by (auto simp: a0_def a1_def a2_def a3_def tail_byte_ok_def second_byte_ok_def word_le_nat_alt
        word_unat_eq_iff split: if_splits)
  have cp: "cp = a0 * 262144 + a1 * 4096 + a2 * 64 + a3"
    using four by (simp add: a0_def a1_def a2_def a3_def)
  have b: "65536 \<le> cp" "cp \<le> 1114111"
    unfolding cp using bounds4 [OF r(1,2,3,4,9,10)] by simp_all
  have d: "240 + cp div 262144 = unat b0" "128 + cp div 4096 mod 64 = unat b1"
    "128 + cp div 64 mod 64 = unat b2" "128 + cp mod 64 = unat b3"
    unfolding cp using digits4 [OF r(2,3,4), of a0] r(5,6,7,8) by simp_all
  have "utf8_encode cp = [word_of_nat (240 + cp div 262144), word_of_nat (128 + cp div 4096 mod 64),
          word_of_nat (128 + cp div 64 mod 64), word_of_nat (128 + cp mod 64)]"
    using b by (simp add: utf8_encode_def)
  then have "utf8_encode cp = [b0, b1, b2, b3]" unfolding d by simp
  then show ?thesis
    using b four(1,7) by (simp add: scalar_value_def)
qed

section \<open>Round trip of the converters\<close>

lemma unat_wchar_of_nat: "n < 65536 \<Longrightarrow> unat (word_of_nat n :: wchar) = n"
  by (simp add: unat_of_nat)

text \<open>Decoding the UTF-16 form of a scalar value gives the scalar value back.\<close>

lemma utf16_decode_encode:
  assumes "scalar_value cp"
  shows "utf16_to_code_points strict (utf16_encode cp @ ws) =
         map_option ((#) cp) (utf16_to_code_points strict ws)"
proof (cases "cp < 0x10000")
  case True
  let ?w = "word_of_nat cp :: wchar"
  have u: "unat ?w = cp" using True by (simp add: unat_wchar_of_nat)
  have "\<not> IS_HIGH_SURROGATE ?w" "\<not> IS_LOW_SURROGATE ?w"
    using assms True u
    by (auto simp: IS_HIGH_SURROGATE_def IS_LOW_SURROGATE_def scalar_value_def word_le_nat_alt)
  with True u show ?thesis by (simp add: utf16_encode_def)
next
  case False
  define v where "v = cp - 0x10000"
  define q r where "q = v div 0x400" and "r = v mod 0x400"
  have v: "v < 0x100000" "cp = 0x10000 + v" using assms False by (auto simp: v_def scalar_value_def)
  have q: "q < 0x400" using v(1) by (simp add: q_def)
  have r: "r < 0x400" by (simp add: r_def)
  have vqr: "v = q * 0x400 + r" by (simp add: q_def r_def)
  define hi lo :: wchar where "hi = word_of_nat (0xD800 + q)" and "lo = word_of_nat (0xDC00 + r)"
  have uh: "unat hi = 0xD800 + q" unfolding hi_def by (rule unat_wchar_of_nat) (use q in simp)
  have ul: "unat lo = 0xDC00 + r" unfolding lo_def by (rule unat_wchar_of_nat) (use r in simp)
  have hs: "IS_HIGH_SURROGATE hi" using q unfolding IS_HIGH_SURROGATE_def word_le_nat_alt uh by simp
  have ls: "IS_LOW_SURROGATE lo" using r unfolding IS_LOW_SURROGATE_def word_le_nat_alt ul by simp
  have enc: "utf16_encode cp = [hi, lo]"
    using False unfolding utf16_encode_def hi_def lo_def q_def r_def v_def by (simp only: if_False)
  have "0x10000 + (unat hi - 0xD800) * 0x400 + (unat lo - 0xDC00) = cp"
    unfolding uh ul v(2) using vqr by simp
  then show ?thesis
    unfolding enc using hs ls by simp
qed

lemma utf16_of_code_points_decode:
  "list_all scalar_value cps \<Longrightarrow>
   utf16_to_code_points strict (utf16_of_code_points cps) = Some cps"
proof (induction cps)
  case Nil
  then show ?case by (simp add: utf16_of_code_points_def)
next
  case (Cons cp cps)
  then have "utf16_to_code_points strict (utf16_of_code_points cps) = Some cps"
    "scalar_value cp" by simp_all
  with utf16_decode_encode [of cp strict "utf16_of_code_points cps"]
  show ?case by (simp add: utf16_of_code_points_def)
qed

text \<open>A valid string is the UTF-8 form of its code points, and these are scalar values.\<close>

lemma utf8_of_code_points_decode:
  "utf8_to_code_points True s = Some cps \<Longrightarrow>
   utf8_of_code_points cps = s \<and> list_all scalar_value cps"
proof (induction s arbitrary: cps rule: length_induct)
  case (1 s)
  show ?case
  proof (cases "s = []")
    case True
    with "1.prems" show ?thesis by (simp add: utf8_of_code_points_def)
  next
    case False
    with "1.prems" have "valid_utf8 s" by (simp add: valid_utf8_def)
    with False obtain cp n where d: "utf8_decode1 s = Some (cp, n)"
      using valid_utf8_step [of s] by auto
    have n: "1 \<le> n" using utf8_decode1_length [OF d] by simp
    from d "1.prems" obtain cr where
      cr: "utf8_to_code_points True (drop n s) = Some cr" "cps = cp # cr"
      by (auto simp: utf8_to_code_points_step [of s cp n])
    have "length (drop n s) < length s" using n False by simp
    with "1.IH" cr(1) have ih: "utf8_of_code_points cr = drop n s" "list_all scalar_value cr"
      by blast+
    from utf8_encode_decode1 [OF d] have "utf8_encode cp = take n s" "scalar_value cp" by simp_all
    with ih cr(2) show ?thesis by (simp add: utf8_of_code_points_def)
  qed
qed

lemma length_utf8_encode:
  "1 \<le> length (utf8_encode cp) \<and> length (utf8_encode cp) \<le> 4 \<and>
   (cp < 0x10000 \<longrightarrow> length (utf8_encode cp) \<le> 3)"
  by (simp add: utf8_encode_def)

text \<open>The lenient UTF-16 decoder always succeeds.\<close>

lemma utf16_to_code_points_lenient: "utf16_to_code_points False ws \<noteq> None"
proof (induction ws rule: length_induct)
  case (1 ws)
  show ?case
  proof (cases ws)
    case Nil
    then show ?thesis by simp
  next
    case (Cons w r)
    have "utf16_to_code_points False r \<noteq> None" using "1.IH" Cons by simp
    moreover have "utf16_to_code_points False (tl r) \<noteq> None" if "r \<noteq> []"
      using "1.IH" Cons that by (cases r) simp_all
    ultimately show ?thesis using Cons by auto
  qed
qed

text \<open>The UTF-8 form has at most three bytes per unit, and at least one byte if there is a unit.\<close>

lemma utf16_to_code_points_bytes:
  "utf16_to_code_points strict ws = Some cps \<Longrightarrow>
   length (utf8_of_code_points cps) \<le> 3 * length ws \<and>
   (ws \<noteq> [] \<longrightarrow> utf8_of_code_points cps \<noteq> [])"
proof (induction ws arbitrary: cps rule: length_induct)
  case (1 ws)
  show ?case
  proof (cases ws)
    case Nil
    with "1.prems" show ?thesis by (simp add: utf8_of_code_points_def)
  next
    case (Cons w r)
    show ?thesis
    proof (cases "IS_HIGH_SURROGATE w \<and> r \<noteq> [] \<and> IS_LOW_SURROGATE (hd r)")
      case True
      then obtain w2 r2 where r: "r = w2 # r2" by (cases r) auto
      with True Cons "1.prems" obtain cp cr where
        cr: "utf16_to_code_points strict r2 = Some cr" "cps = cp # cr"
        by auto
      have "length r2 < length ws" using Cons r by simp
      with "1.IH" cr(1) have "length (utf8_of_code_points cr) \<le> 3 * length r2" by blast
      with cr(2) Cons r length_utf8_encode [of cp] show ?thesis
        by (auto simp: utf8_of_code_points_def)
    next
      case False
      with Cons "1.prems" obtain cp cr where
        cr: "utf16_to_code_points strict r = Some cr" "cps = cp # cr" "cp = 0xFFFD \<or> cp = unat w"
        by (auto split: if_splits)
      have "unat w < 65536" using unsigned_less [of w] by simp
      with cr(3) have "cp < 0x10000" by auto
      then have "length (utf8_encode cp) \<le> 3" using length_utf8_encode [of cp] by simp
      moreover have "length r < length ws" using Cons by simp
      with "1.IH" cr(1) have "length (utf8_of_code_points cr) \<le> 3 * length r" by blast
      ultimately show ?thesis using cr(2) Cons length_utf8_encode [of cp]
        by (auto simp: utf8_of_code_points_def)
    qed
  qed
qed

text \<open>\<open>u8narrow\<close> on an input of a length between 1 and \<open>INT_MAX - 1\<close>.\<close>

lemma u8narrow_converts:
  assumes "ws \<noteq> []" "length ws < INT_MAX"
  shows "u8narrow ws strict =
         (case utf16_to_code_points strict ws of
            None \<Rightarrow> Inl (U8ConversionError ''wide-string to utf8 conversion failed.'')
          | Some cps \<Rightarrow>
              if length (utf8_of_code_points cps) \<le> INT_MAX then Inr (utf8_of_code_points cps)
              else Inl (U8ConversionError ''wide-string to utf8 conversion failed.''))"
proof (cases "utf16_to_code_points strict ws")
  case None
  with assms show ?thesis
    by (simp add: u8narrow_def WideCharToMultiByte_def flags_WC)
next
  case (Some cps)
  from utf16_to_code_points_bytes [OF Some] assms
  have "utf8_of_code_points cps \<noteq> []" by simp
  with Some assms show ?thesis
    by (simp add: u8narrow_def WideCharToMultiByte_def flags_WC Let_def)
qed

lemma u8narrow_too_long:
  "INT_MAX \<le> length ws \<Longrightarrow>
   u8narrow ws strict = Inl (U8ConversionError ''wide-string to utf8 conversion failed.'')"
  by (auto simp: u8narrow_def INT_MAX_def)

section \<open>The codec: round trip and failure\<close>

text \<open>
  C7, amended.  For every valid UTF-8 byte sequence \<open>s\<close> of fewer than \<open>INT_MAX\<close> bytes,
  widening \<open>s\<close> in strict mode succeeds, and narrowing the result in strict mode yields
  \<open>s\<close> again.
\<close>

theorem round_trip:
  assumes "valid_utf8 s" "length s < INT_MAX"
  shows "\<exists>ws. u8widen s True = Inr ws \<and> u8narrow ws True = Inr s"
proof (cases "s = []")
  case True
  then show ?thesis by (simp add: u8widen_def u8narrow_def)
next
  case False
  from assms(1) obtain cps where cps: "utf8_to_code_points True s = Some cps"
    by (auto simp: valid_utf8_def)
  let ?ws = "utf16_of_code_points cps"
  have w: "u8widen s True = Inr ?ws"
    using False assms(2) cps by (simp add: u8widen_converts)
  from utf8_to_code_points_units [OF cps] False assms(2)
  have ws: "?ws \<noteq> []" "length ?ws < INT_MAX" by simp_all
  from utf8_of_code_points_decode [OF cps]
  have enc: "utf8_of_code_points cps = s" "list_all scalar_value cps" by simp_all
  have "utf16_to_code_points True ?ws = Some cps"
    using enc(2) by (rule utf16_of_code_points_decode)
  with ws enc(1) assms(2) have "u8narrow ?ws True = Inr s"
    by (simp add: u8narrow_converts)
  with w show ?thesis by blast
qed

theorem round_trip_witness:
  "valid_utf8 [0xE2, 0x82, 0xAC] \<and> length [0xE2, 0x82, 0xAC :: byte] < INT_MAX \<and>
   (\<exists>ws. u8widen [0xE2, 0x82, 0xAC] True = Inr ws \<and> u8narrow ws True = Inr [0xE2, 0x82, 0xAC])"
proof -
  have h: "valid_utf8 [0xE2, 0x82, 0xAC]" "length [0xE2, 0x82, 0xAC :: byte] < INT_MAX"
    by (simp_all add: utf8_eval INT_MAX_def)
  from round_trip [OF h] h show ?thesis by blast
qed

text \<open>
  C7 as stated fails on a valid string of \<open>INT_MAX\<close> bytes: \<open>u8widen\<close> rejects the length.
\<close>

theorem round_trip_counterexample:
  "valid_utf8 (replicate 2147483647 0x41) \<and>
   u8widen (replicate 2147483647 0x41) True =
     Inl (U8ConversionError ''utf8 to wide-string conversion failed.'')"
proof
  show "valid_utf8 (replicate 2147483647 0x41)" by (rule valid_utf8_ascii) simp
  show "u8widen (replicate 2147483647 0x41) True =
        Inl (U8ConversionError ''utf8 to wide-string conversion failed.'')"
    by (rule u8widen_too_long) (simp add: INT_MAX_def)
qed

text \<open>
  C6, amended.  On an input of fewer than \<open>INT_MAX\<close> units whose conversion fits an
  \<^verbatim>\<open>int\<close> (for \<open>u8widen\<close> every such input, for \<open>u8narrow\<close> every input of at most
  \<open>INT_MAX div 3\<close> units), \<open>u8widen\<close> and \<open>u8narrow\<close> called with \<open>strict = false\<close> never
  raise \<open>U8ConversionError\<close>, and called with \<open>strict = true\<close> they raise it exactly when
  the encoding is invalid.  On an input of \<open>INT_MAX\<close> or more units both raise it in either
  mode.
\<close>

theorem lenient_never_raises:
  "(length s < INT_MAX \<longrightarrow> \<not> isl (u8widen s False)) \<and>
   (3 * length ws \<le> INT_MAX \<longrightarrow> \<not> isl (u8narrow ws False)) \<and>
   (length s < INT_MAX \<longrightarrow> (isl (u8widen s True) \<longleftrightarrow> \<not> valid_utf8 s)) \<and>
   (3 * length ws \<le> INT_MAX \<longrightarrow> (isl (u8narrow ws True) \<longleftrightarrow> \<not> valid_utf16 ws)) \<and>
   (INT_MAX \<le> length t \<longrightarrow> isl (u8widen t strict)) \<and>
   (INT_MAX \<le> length wt \<longrightarrow> isl (u8narrow wt strict))"
proof (intro conjI impI)
  assume "INT_MAX \<le> length t"
  then show "isl (u8widen t strict)" by (simp add: u8widen_too_long)
next
  assume "INT_MAX \<le> length wt"
  then show "isl (u8narrow wt strict)" by (simp add: u8narrow_too_long)
next
  assume len: "length s < INT_MAX"
  show "\<not> isl (u8widen s False)"
  proof (cases "s = []")
    case True
    then show ?thesis by (simp add: u8widen_def)
  next
    case False
    with len utf8_to_code_points_lenient [of s] show ?thesis
      by (auto simp: u8widen_converts)
  qed
  show "isl (u8widen s True) \<longleftrightarrow> \<not> valid_utf8 s"
  proof (cases "s = []")
    case True
    then show ?thesis by (simp add: u8widen_def valid_utf8_Nil)
  next
    case False
    with len show ?thesis
      by (auto simp: u8widen_converts valid_utf8_def split: option.splits)
  qed
next
  assume len3: "3 * length ws \<le> INT_MAX"
  have fits: "length (utf8_of_code_points cps) \<le> INT_MAX"
    if "utf16_to_code_points strict ws = Some cps" for strict cps
    using utf16_to_code_points_bytes [OF that] len3 by simp
  show "\<not> isl (u8narrow ws False)"
  proof (cases "ws = []")
    case True
    then show ?thesis by (simp add: u8narrow_def)
  next
    case False
    then have "length ws < INT_MAX" using len3 by (cases ws) auto
    with False fits [of False] utf16_to_code_points_lenient [of ws] show ?thesis
      by (auto simp: u8narrow_converts)
  qed
  show "isl (u8narrow ws True) \<longleftrightarrow> \<not> valid_utf16 ws"
  proof (cases "ws = []")
    case True
    then show ?thesis by (simp add: u8narrow_def valid_utf16_def)
  next
    case False
    then have "length ws < INT_MAX" using len3 by (cases ws) auto
    with False fits [of True] show ?thesis
      by (auto simp: u8narrow_converts valid_utf16_def split: option.splits)
  qed
qed

lemmas utf16_eval = valid_utf16_def IS_HIGH_SURROGATE_def IS_LOW_SURROGATE_def

theorem lenient_never_raises_witness:
  "length [0xFF, 0x41 :: byte] < INT_MAX \<and> 3 * length [0xD800 :: wchar] \<le> INT_MAX \<and>
   INT_MAX \<le> length (replicate 2147483647 (0x41 :: byte)) \<and>
   INT_MAX \<le> length (replicate 2147483647 (0x41 :: wchar)) \<and>
   \<not> isl (u8widen [0xFF, 0x41] False) \<and> \<not> isl (u8narrow [0xD800] False) \<and>
   isl (u8widen [0xFF, 0x41] True) \<and> isl (u8narrow [0xD800] True) \<and>
   isl (u8widen (replicate 2147483647 0x41) False) \<and>
   isl (u8narrow (replicate 2147483647 0x41) False)"
proof -
  have h: "length [0xFF, 0x41 :: byte] < INT_MAX" "3 * length [0xD800 :: wchar] \<le> INT_MAX"
    "INT_MAX \<le> length (replicate 2147483647 (0x41 :: byte))"
    "INT_MAX \<le> length (replicate 2147483647 (0x41 :: wchar))"
    by (simp_all add: INT_MAX_def)
  have i: "\<not> valid_utf8 [0xFF, 0x41]" "\<not> valid_utf16 [0xD800]"
    by (simp_all add: utf8_eval utf16_eval)
  from lenient_never_raises [of "[0xFF, 0x41]" "[0xD800]" "replicate 2147483647 0x41" False
      "replicate 2147483647 0x41"] h i
  show ?thesis by blast
qed

text \<open>
  C6 as stated fails on an input of \<open>INT_MAX\<close> units: both functions raise in lenient mode.
\<close>

theorem lenient_raises_counterexample:
  "u8widen (replicate 2147483647 0x41) False =
     Inl (U8ConversionError ''utf8 to wide-string conversion failed.'') \<and>
   u8narrow (replicate 2147483647 0x41) False =
     Inl (U8ConversionError ''wide-string to utf8 conversion failed.'')"
proof
  show "u8widen (replicate 2147483647 0x41) False =
        Inl (U8ConversionError ''utf8 to wide-string conversion failed.'')"
    by (rule u8widen_too_long) (simp add: INT_MAX_def)
  show "u8narrow (replicate 2147483647 0x41) False =
        Inl (U8ConversionError ''wide-string to utf8 conversion failed.'')"
    by (rule u8narrow_too_long) (simp add: INT_MAX_def)
qed

section \<open>The reads of underflow\<close>

lemma reads_ReadConsoleW: "reads (snd (ReadConsoleW con n)) = reads con @ [n]"
  by (simp add: ReadConsoleW_def split: list.splits read_event.splits)

lemma length_ReadConsoleW: "length (snd (fst (ReadConsoleW con n))) \<le> n"
  by (simp add: ReadConsoleW_def split: list.splits read_event.splits)

text \<open>The text that \<open>underflow\<close> converts: the units in front of the first zero.\<close>

lemma take_wcslen: "take (wcslen s) s = takeWhile (\<lambda>c. c \<noteq> 0) s"
  unfolding wcslen_def by (rule takeWhile_eq_take [symmetric])

lemma take_wcslen_terminated:
  "0 \<notin> set units \<Longrightarrow> take (wcslen (units @ [0])) (units @ [0]) = units"
proof -
  assume "0 \<notin> set units"
  then have "takeWhile (\<lambda>c. c \<noteq> 0) (units @ [0]) = units @ takeWhile (\<lambda>c. c \<noteq> 0) [0]"
    by (intro takeWhile_append2) auto
  then show ?thesis unfolding take_wcslen by simp
qed

text \<open>What \<open>read_batch\<close> leaves in \<open>wideBuffer\<close>.\<close>

lemma read_batch_cases:
  obtains (fail) con1 where "read_batch con = (None, con1)"
      "\<not> fst (fst (ReadConsoleW con (ARRAYSIZE_wideBuffer - 2)))"
      "con1 = snd (ReadConsoleW con (ARRAYSIZE_wideBuffer - 2))"
  | (plain) units con1 where
      "ReadConsoleW con (ARRAYSIZE_wideBuffer - 2) = ((True, units), con1)"
      "\<not> (units \<noteq> [] \<and> IS_HIGH_SURROGATE (last units))"
      "read_batch con = (Some (units @ [0]), con1)"
  | (lone) units con1 where
      "ReadConsoleW con (ARRAYSIZE_wideBuffer - 2) = ((True, units), con1)"
      "units \<noteq> []" "IS_HIGH_SURROGATE (last units)"
      "\<not> (fst (fst (ReadConsoleW con1 1)) \<and> length (snd (fst (ReadConsoleW con1 1))) = 1)"
      "read_batch con = (Some (units @ [0]), snd (ReadConsoleW con1 1))"
  | (extra) units con1 u where
      "ReadConsoleW con (ARRAYSIZE_wideBuffer - 2) = ((True, units), con1)"
      "units \<noteq> []" "IS_HIGH_SURROGATE (last units)"
      "fst (ReadConsoleW con1 1) = (True, [u])"
      "read_batch con = (Some (units @ [u] @ [0]), snd (ReadConsoleW con1 1))"
proof -
  obtain ok units con1 where r1: "ReadConsoleW con (ARRAYSIZE_wideBuffer - 2) = ((ok, units), con1)"
    by (metis prod.exhaust)
  show thesis
  proof (cases ok)
    case False
    with r1 show ?thesis by (intro fail [of con1]) (simp_all add: read_batch_def)
  next
    case True
    note ok = True
    show ?thesis
    proof (cases "units \<noteq> [] \<and> IS_HIGH_SURROGATE (last units)")
      case False
      with r1 ok show ?thesis
        by (intro plain [of units con1]) (auto simp: read_batch_def last_conv_nth)
    next
      case True
      then have hs: "IS_HIGH_SURROGATE (units ! (length units - 1))" "0 < length units"
        by (auto simp: last_conv_nth)
      obtain ok2 ex con2 where r2: "ReadConsoleW con1 1 = ((ok2, ex), con2)"
        by (metis prod.exhaust)
      show ?thesis
      proof (cases "ok2 \<and> length ex = 1")
        case False
        with r1 r2 ok True hs show ?thesis
          by (intro lone [of units con1]) (auto simp: read_batch_def)
      next
        case True
        then obtain u where u: "ex = [u]" by (cases ex) auto
        with r1 r2 ok True \<open>units \<noteq> [] \<and> IS_HIGH_SURROGATE (last units)\<close> hs show ?thesis
          by (intro extra [of units con1 u]) (auto simp: read_batch_def)
      qed
    qed
  qed
qed

lemma read_batch_fail:
  "\<not> fst (fst (ReadConsoleW con (ARRAYSIZE_wideBuffer - 2))) \<Longrightarrow>
   read_batch con = (None, snd (ReadConsoleW con (ARRAYSIZE_wideBuffer - 2)))"
  by (cases "ReadConsoleW con (ARRAYSIZE_wideBuffer - 2)") (auto simp: read_batch_def)

lemma read_batch_high:
  assumes "ReadConsoleW con (ARRAYSIZE_wideBuffer - 2) = ((True, units), con1)"
    and "units \<noteq> []" and "IS_HIGH_SURROGATE (last units)"
  shows "read_batch con =
         (Some (units @
                (if fst (fst (ReadConsoleW con1 1)) \<and> length (snd (fst (ReadConsoleW con1 1))) = 1
                 then snd (fst (ReadConsoleW con1 1)) else []) @ [0]),
          snd (ReadConsoleW con1 1))"
proof -
  have "IS_HIGH_SURROGATE (units ! (length units - 1))" "0 < length units"
    using assms(2,3) by (auto simp: last_conv_nth)
  with assms(1) show ?thesis
    by (cases "ReadConsoleW con1 1") (auto simp: read_batch_def)
qed

lemma read_batch_length:
  assumes "read_batch con = (Some wb, con')"
  shows "length wb \<le> 128"
proof (cases con rule: read_batch_cases)
  case (fail con1)
  with assms show ?thesis by simp
next
  case (plain units con1)
  with assms length_ReadConsoleW [of con "ARRAYSIZE_wideBuffer - 2"] show ?thesis
    by (auto simp: ARRAYSIZE_wideBuffer_def)
next
  case (lone units con1)
  with assms length_ReadConsoleW [of con "ARRAYSIZE_wideBuffer - 2"] show ?thesis
    by (auto simp: ARRAYSIZE_wideBuffer_def)
next
  case (extra units con1 u)
  with assms length_ReadConsoleW [of con "ARRAYSIZE_wideBuffer - 2"] show ?thesis
    by (auto simp: ARRAYSIZE_wideBuffer_def)
qed

text \<open>\<open>underflow\<close> with an exhausted window, by the outcome of its reads.\<close>

lemma underflow_handle:
  "egptr st \<le> gptr st \<Longrightarrow> m_handle_in (snd (underflow st)) = snd (read_batch (m_handle_in st))"
  by (cases "read_batch (m_handle_in st)")
     (auto simp: underflow_def Let_def split: option.splits sum.splits)

lemma underflow_eof:
  "egptr st \<le> gptr st \<Longrightarrow> fst (read_batch (m_handle_in st)) = None \<Longrightarrow>
   fst (underflow st) = Inr eof"
  by (cases "read_batch (m_handle_in st)") (auto simp: underflow_def)

lemma underflow_raises:
  "egptr st \<le> gptr st \<Longrightarrow> fst (read_batch (m_handle_in st)) = Some wb \<Longrightarrow>
   u8narrow (take (wcslen wb) wb) True = Inl e \<Longrightarrow> fst (underflow st) = Inl e"
  by (cases "read_batch (m_handle_in st)")
     (auto simp: underflow_def u8narrow_cstr_def u8_default_throw_def)

lemma underflow_fills:
  "egptr st \<le> gptr st \<Longrightarrow> fst (read_batch (m_handle_in st)) = Some wb \<Longrightarrow>
   u8narrow (take (wcslen wb) wb) True = Inr b \<Longrightarrow>
   fst (underflow st) = (if b = [] then Inr eof else Inr (uint (hd b))) \<and>
   m_buffer (snd (underflow st)) = b \<and> gptr (snd (underflow st)) = 0 \<and>
   egptr (snd (underflow st)) = length b"
  by (cases "read_batch (m_handle_in st)")
     (auto simp: underflow_def u8narrow_cstr_def u8_default_throw_def Let_def sgetc_def hd_conv_nth)

text \<open>The conversion of \<open>underflow\<close> is the strict one.\<close>

lemma underflow_converts:
  assumes "egptr st \<le> gptr st" "fst (read_batch (m_handle_in st)) = Some wb"
  shows "case utf16_to_code_points True (take (wcslen wb) wb) of
           None \<Rightarrow> fst (underflow st) =
                    Inl (U8ConversionError ''wide-string to utf8 conversion failed.'')
         | Some cps \<Rightarrow> \<not> isl (fst (underflow st)) \<and>
                       m_buffer (snd (underflow st)) = utf8_of_code_points cps"
proof -
  let ?t = "take (wcslen wb) wb"
  obtain con' where "read_batch (m_handle_in st) = (Some wb, con')"
    using assms(2) by (cases "read_batch (m_handle_in st)") auto
  then have "length wb \<le> 128" by (rule read_batch_length)
  then have lt: "length ?t \<le> 128" by simp
  then have lim: "length ?t < INT_MAX" by (simp add: INT_MAX_def)
  show ?thesis
  proof (cases "?t = []")
    case True
    have "u8narrow [] True = Inr []" by (simp add: u8narrow_def)
    then have "u8narrow ?t True = Inr []" by (simp only: True)
    from underflow_fills [OF assms this] show ?thesis
      unfolding True by (simp add: utf8_of_code_points_def)
  next
    case False
    show ?thesis
    proof (cases "utf16_to_code_points True ?t")
      case None
      with False lim have "u8narrow ?t True =
          Inl (U8ConversionError ''wide-string to utf8 conversion failed.'')"
        by (simp add: u8narrow_converts)
      from underflow_raises [OF assms this] None show ?thesis by simp
    next
      case (Some cps)
      from utf16_to_code_points_bytes [OF Some] lt
      have "length (utf8_of_code_points cps) \<le> INT_MAX" by (simp add: INT_MAX_def)
      with False lim Some have "u8narrow ?t True = Inr (utf8_of_code_points cps)"
        by (simp add: u8narrow_converts)
      from underflow_fills [OF assms this] Some show ?thesis by simp
    qed
  qed
qed

section \<open>The input adapter: surrogate pairs, strictness, failure\<close>

lemma utf16_to_code_points_append:
  "utf16_to_code_points True a = Some ca \<Longrightarrow>
   utf16_to_code_points strict (a @ b) = map_option ((@) ca) (utf16_to_code_points strict b)"
proof (induction a arbitrary: ca rule: length_induct)
  case (1 a)
  show ?case
  proof (cases a)
    case Nil
    with "1.prems" show ?thesis by (simp add: option.map_ident)
  next
    case (Cons w r)
    show ?thesis
    proof (cases "IS_HIGH_SURROGATE w \<and> r \<noteq> [] \<and> IS_LOW_SURROGATE (hd r)")
      case True
      then obtain w2 r2 where r: "r = w2 # r2" by (cases r) auto
      with True Cons "1.prems" obtain cr where
        cr: "utf16_to_code_points True r2 = Some cr"
            "ca = (0x10000 + (unat w - 0xD800) * 0x400 + (unat w2 - 0xDC00)) # cr"
        by auto
      have "length r2 < length a" using Cons r by simp
      with "1.IH" cr(1) have "utf16_to_code_points strict (r2 @ b) =
          map_option ((@) cr) (utf16_to_code_points strict b)" by blast
      with True Cons r cr(2) show ?thesis by (simp add: option.map_comp comp_def)
    next
      case False
      with Cons "1.prems" have plain: "\<not> IS_HIGH_SURROGATE w" "\<not> IS_LOW_SURROGATE w"
        by (auto split: if_splits)
      with Cons "1.prems" obtain cr where
        cr: "utf16_to_code_points True r = Some cr" "ca = unat w # cr"
        by auto
      have "length r < length a" using Cons by simp
      with "1.IH" cr(1) have "utf16_to_code_points strict (r @ b) =
          map_option ((@) cr) (utf16_to_code_points strict b)" by blast
      with plain Cons cr(2) show ?thesis by (simp add: option.map_comp comp_def)
    qed
  qed
qed

text \<open>
  Strict decoding puts no replacement character: a code point U+FFFD of the result is a
  unit \<open>0xFFFD\<close> of the input.
\<close>

lemma utf16_strict_no_replacement:
  "utf16_to_code_points True ws = Some cps \<Longrightarrow> 0xFFFD \<in> set cps \<Longrightarrow> 0xFFFD \<in> set ws"
proof (induction ws arbitrary: cps rule: length_induct)
  case (1 ws)
  show ?case
  proof (cases ws)
    case Nil
    with "1.prems" show ?thesis by simp
  next
    case (Cons w r)
    show ?thesis
    proof (cases "IS_HIGH_SURROGATE w \<and> r \<noteq> [] \<and> IS_LOW_SURROGATE (hd r)")
      case True
      then obtain w2 r2 where r: "r = w2 # r2" by (cases r) auto
      with True Cons "1.prems"(1) obtain cr where
        cr: "utf16_to_code_points True r2 = Some cr"
            "cps = (0x10000 + (unat w - 0xD800) * 0x400 + (unat w2 - 0xDC00)) # cr"
        by auto
      with "1.prems"(2) have "0xFFFD \<in> set cr" by auto
      moreover have "length r2 < length ws" using Cons r by simp
      ultimately have "0xFFFD \<in> set r2" using "1.IH" cr(1) by blast
      with Cons r show ?thesis by simp
    next
      case False
      with Cons "1.prems"(1) have plain: "\<not> IS_HIGH_SURROGATE w" "\<not> IS_LOW_SURROGATE w"
        by (auto split: if_splits)
      with Cons "1.prems"(1) obtain cr where
        cr: "utf16_to_code_points True r = Some cr" "cps = unat w # cr"
        by auto
      show ?thesis
      proof (cases "unat w = 0xFFFD")
        case True
        then have "w = 0xFFFD" by (simp add: word_unat_eq_iff)
        with Cons show ?thesis by simp
      next
        case False
        with cr(2) "1.prems"(2) have "0xFFFD \<in> set cr" by auto
        moreover have "length r < length ws" using Cons by simp
        ultimately have "0xFFFD \<in> set r" using "1.IH" cr(1) by blast
        with Cons show ?thesis by simp
      qed
    qed
  qed
qed

lemma utf8_of_code_points_snoc:
  "utf8_of_code_points (cps @ [cp]) = utf8_of_code_points cps @ utf8_encode cp"
  by (simp add: utf8_of_code_points_def)

text \<open>
  C8.  When the window is exhausted and the batch read of \<open>underflow\<close> delivers units whose
  last one is a high surrogate, \<open>underflow\<close> issues exactly one more read, of a single
  unit.  If that read delivers a low surrogate \<open>lo\<close> (and the units hold no zero and the
  ones in front of the pair are valid UTF-16), \<open>underflow\<close> does not raise and the window
  is the UTF-8 of the units in front, followed by the encoding of the one code point of the
  pair.  And whenever \<open>underflow\<close> does not raise, the window is the strict conversion of
  the units read, which holds the replacement character U+FFFD only where the units read
  hold it: none stands for a surrogate.
\<close>

theorem surrogate_pair_completed:
  assumes "egptr st \<le> gptr st"
    and "ReadConsoleW (m_handle_in st) (ARRAYSIZE_wideBuffer - 2) = ((True, units), con1)"
    and "units \<noteq> []" and "IS_HIGH_SURROGATE (last units)"
  shows "reads (m_handle_in (snd (underflow st))) =
           reads (m_handle_in st) @ [ARRAYSIZE_wideBuffer - 2, 1] \<and>
         (fst (ReadConsoleW con1 1) = (True, [lo]) \<and> IS_LOW_SURROGATE lo \<and> 0 \<notin> set units \<and>
          utf16_to_code_points True (butlast units) = Some cps \<longrightarrow>
            \<not> isl (fst (underflow st)) \<and>
            m_buffer (snd (underflow st)) =
              utf8_of_code_points cps @
              utf8_encode (0x10000 + (unat (last units) - 0xD800) * 0x400 + (unat lo - 0xDC00))) \<and>
         (\<not> isl (fst (underflow st)) \<longrightarrow>
            (\<exists>wb cps'. fst (read_batch (m_handle_in st)) = Some wb \<and>
               utf16_to_code_points True (take (wcslen wb) wb) = Some cps' \<and>
               m_buffer (snd (underflow st)) = utf8_of_code_points cps' \<and>
               (0xFFFD \<in> set cps' \<longrightarrow> 0xFFFD \<in> set (take (wcslen wb) wb))))"
proof -
  note rb = read_batch_high [OF assms(2,3,4)]
  have "con1 = snd (ReadConsoleW (m_handle_in st) (ARRAYSIZE_wideBuffer - 2))"
    using assms(2) by simp
  then have "reads con1 = reads (m_handle_in st) @ [ARRAYSIZE_wideBuffer - 2]"
    by (simp add: reads_ReadConsoleW)
  moreover have "m_handle_in (snd (underflow st)) = snd (ReadConsoleW con1 1)"
    using underflow_handle [OF assms(1)] rb by simp
  ultimately have one: "reads (m_handle_in (snd (underflow st))) =
                   reads (m_handle_in st) @ [ARRAYSIZE_wideBuffer - 2, 1]"
    by (simp add: reads_ReadConsoleW)
  have two: "\<not> isl (fst (underflow st)) \<and>
        m_buffer (snd (underflow st)) =
          utf8_of_code_points cps @
          utf8_encode (0x10000 + (unat (last units) - 0xD800) * 0x400 + (unat lo - 0xDC00))"
    if a: "fst (ReadConsoleW con1 1) = (True, [lo]) \<and> IS_LOW_SURROGATE lo \<and> 0 \<notin> set units \<and>
             utf16_to_code_points True (butlast units) = Some cps"
  proof -
    let ?hi = "last units"
    let ?wb = "(units @ [lo]) @ [0]"
    have rb: "fst (read_batch (m_handle_in st)) = Some ?wb"
      using read_batch_high [OF assms(2,3,4)] a by simp
    have "lo \<noteq> 0" using a by (auto simp: IS_LOW_SURROGATE_def)
    with a have "0 \<notin> set (units @ [lo])" by simp
    then have t: "take (wcslen ?wb) ?wb = units @ [lo]" by (rule take_wcslen_terminated)
    have e: "units @ [lo] = butlast units @ [?hi, lo]" using assms(3) by simp
    have p: "utf16_to_code_points True [?hi, lo] =
        Some [0x10000 + (unat ?hi - 0xD800) * 0x400 + (unat lo - 0xDC00)]"
      using assms(4) a by simp
    have c: "utf16_to_code_points True (butlast units) = Some cps" using a by simp
    have "utf16_to_code_points True (units @ [lo]) =
        map_option ((@) cps) (utf16_to_code_points True [?hi, lo])"
      by (subst e) (rule utf16_to_code_points_append [OF c])
    then have "utf16_to_code_points True (units @ [lo]) =
        Some (cps @ [0x10000 + (unat ?hi - 0xD800) * 0x400 + (unat lo - 0xDC00)])"
      unfolding p by simp
    with underflow_converts [OF assms(1) rb] t show ?thesis
      by (simp add: utf8_of_code_points_snoc)
  qed
  have three: "\<exists>wb cps'. fst (read_batch (m_handle_in st)) = Some wb \<and>
               utf16_to_code_points True (take (wcslen wb) wb) = Some cps' \<and>
               m_buffer (snd (underflow st)) = utf8_of_code_points cps' \<and>
               (0xFFFD \<in> set cps' \<longrightarrow> 0xFFFD \<in> set (take (wcslen wb) wb))"
    if ok: "\<not> isl (fst (underflow st))"
  proof -
    obtain wb where rb: "fst (read_batch (m_handle_in st)) = Some wb"
      using read_batch_high [OF assms(2,3,4)] by simp
    from underflow_converts [OF assms(1) rb] ok
    obtain cps' where c: "utf16_to_code_points True (take (wcslen wb) wb) = Some cps'"
      "m_buffer (snd (underflow st)) = utf8_of_code_points cps'"
      by (cases "utf16_to_code_points True (take (wcslen wb) wb)") auto
    from utf16_strict_no_replacement [OF c(1)]
    have "0xFFFD \<in> set cps' \<longrightarrow> 0xFFFD \<in> set (take (wcslen wb) wb)" by blast
    with rb c show ?thesis by blast
  qed
  from one two three show ?thesis by blast
qed

lemmas terminal_eval = ReadConsoleW_def WriteConsoleW_def ARRAYSIZE_wideBuffer_def
  new_istreambuf_def new_ostreambuf_def

theorem surrogate_pair_completed_witness:
  "egptr (new_istreambuf \<lparr>answers = [Delivers [0x41, 0xD83D], Delivers [0xDE00]], reads = []\<rparr>) \<le>
   gptr (new_istreambuf \<lparr>answers = [Delivers [0x41, 0xD83D], Delivers [0xDE00]], reads = []\<rparr>) \<and>
   ReadConsoleW (m_handle_in (new_istreambuf
       \<lparr>answers = [Delivers [0x41, 0xD83D], Delivers [0xDE00]], reads = []\<rparr>))
     (ARRAYSIZE_wideBuffer - 2) =
     ((True, [0x41, 0xD83D]), \<lparr>answers = [Delivers [0xDE00]], reads = [126]\<rparr>) \<and>
   [0x41, 0xD83D :: wchar] \<noteq> [] \<and> IS_HIGH_SURROGATE (last [0x41, 0xD83D]) \<and>
   fst (ReadConsoleW \<lparr>answers = [Delivers [0xDE00]], reads = [126]\<rparr> 1) = (True, [0xDE00]) \<and>
   IS_LOW_SURROGATE 0xDE00 \<and> 0 \<notin> set [0x41, 0xD83D :: wchar] \<and>
   utf16_to_code_points True (butlast [0x41, 0xD83D]) = Some [0x41] \<and>
   reads (m_handle_in (snd (underflow (new_istreambuf
       \<lparr>answers = [Delivers [0x41, 0xD83D], Delivers [0xDE00]], reads = []\<rparr>)))) = [126, 1] \<and>
   m_buffer (snd (underflow (new_istreambuf
       \<lparr>answers = [Delivers [0x41, 0xD83D], Delivers [0xDE00]], reads = []\<rparr>))) =
     [0x41, 0xF0, 0x9F, 0x98, 0x80]"
proof -
  let ?st = "new_istreambuf \<lparr>answers = [Delivers [0x41, 0xD83D], Delivers [0xDE00]], reads = []\<rparr>"
  let ?con1 = "\<lparr>answers = [Delivers [0xDE00]], reads = [126]\<rparr>"
  have h: "egptr ?st \<le> gptr ?st"
    "ReadConsoleW (m_handle_in ?st) (ARRAYSIZE_wideBuffer - 2) = ((True, [0x41, 0xD83D]), ?con1)"
    "[0x41, 0xD83D :: wchar] \<noteq> []" "IS_HIGH_SURROGATE (last [0x41, 0xD83D])"
    by (simp_all add: terminal_eval IS_HIGH_SURROGATE_def)
  have i: "fst (ReadConsoleW ?con1 1) = (True, [0xDE00]) \<and> IS_LOW_SURROGATE 0xDE00 \<and>
     0 \<notin> set [0x41, 0xD83D :: wchar] \<and>
     utf16_to_code_points True (butlast [0x41, 0xD83D]) = Some [0x41]"
    by (simp add: terminal_eval IS_HIGH_SURROGATE_def IS_LOW_SURROGATE_def)
  have enc: "utf8_of_code_points [0x41] @
      utf8_encode (0x10000 + (unat (last [0x41, 0xD83D :: wchar]) - 0xD800) * 0x400 +
                   (unat (0xDE00 :: wchar) - 0xDC00)) = [0x41, 0xF0, 0x9F, 0x98, 0x80]"
    by (simp add: utf8_of_code_points_def utf8_encode_def)
  have r: "reads (m_handle_in ?st) @ [ARRAYSIZE_wideBuffer - 2, 1] = [126, 1]"
    by (simp add: terminal_eval)
  from surrogate_pair_completed [OF h, of "0xDE00" "[0x41]"] i
  have "reads (m_handle_in (snd (underflow ?st))) =
          reads (m_handle_in ?st) @ [ARRAYSIZE_wideBuffer - 2, 1]"
    "m_buffer (snd (underflow ?st)) =
       utf8_of_code_points [0x41] @
       utf8_encode (0x10000 + (unat (last [0x41, 0xD83D :: wchar]) - 0xD800) * 0x400 +
                    (unat (0xDE00 :: wchar) - 0xDC00))"
    by blast+
  then have "reads (m_handle_in (snd (underflow ?st))) = [126, 1]"
    "m_buffer (snd (underflow ?st)) = [0x41, 0xF0, 0x9F, 0x98, 0x80]"
    unfolding enc r by simp_all
  with h i show ?thesis by blast
qed

text \<open>
  C5, amended.  In \<open>underflow\<close> the batch read from the terminal, up to its first zero
  unit, is converted to the read window by \<open>u8narrow\<close> in strict mode (the default
  \<open>u8_default_throw\<close>): an invalid unit in it (such as a lone surrogate) raises
  \<open>U8ConversionError\<close> to the reader, and a valid batch is converted without replacement.
\<close>

theorem underflow_strict:
  assumes "egptr st \<le> gptr st" "fst (read_batch (m_handle_in st)) = Some wideBuffer"
  shows "(\<not> valid_utf16 (take (wcslen wideBuffer) wideBuffer) \<longrightarrow>
            fst (underflow st) =
              Inl (U8ConversionError ''wide-string to utf8 conversion failed.'')) \<and>
         (\<forall>cps. utf16_to_code_points True (take (wcslen wideBuffer) wideBuffer) = Some cps \<longrightarrow>
            \<not> isl (fst (underflow st)) \<and>
            m_buffer (snd (underflow st)) = utf8_of_code_points cps)"
  using underflow_converts [OF assms]
  by (auto simp: valid_utf16_def split: option.splits)

lemma read_batch_lone_low:
  "read_batch \<lparr>answers = [Delivers [0x41, 0xDC00]], reads = []\<rparr> =
     (Some [0x41, 0xDC00, 0], \<lparr>answers = [], reads = [126]\<rparr>)"
  by (simp add: read_batch_def terminal_eval IS_HIGH_SURROGATE_def)

theorem underflow_strict_witness:
  "egptr (new_istreambuf \<lparr>answers = [Delivers [0x41, 0xDC00]], reads = []\<rparr>) \<le>
   gptr (new_istreambuf \<lparr>answers = [Delivers [0x41, 0xDC00]], reads = []\<rparr>) \<and>
   fst (read_batch (m_handle_in (new_istreambuf
       \<lparr>answers = [Delivers [0x41, 0xDC00]], reads = []\<rparr>))) = Some [0x41, 0xDC00, 0] \<and>
   \<not> valid_utf16 (take (wcslen [0x41, 0xDC00, 0]) [0x41, 0xDC00, 0]) \<and>
   fst (underflow (new_istreambuf \<lparr>answers = [Delivers [0x41, 0xDC00]], reads = []\<rparr>)) =
     Inl (U8ConversionError ''wide-string to utf8 conversion failed.'')"
proof -
  let ?st = "new_istreambuf \<lparr>answers = [Delivers [0x41, 0xDC00]], reads = []\<rparr>"
  have h: "egptr ?st \<le> gptr ?st" "fst (read_batch (m_handle_in ?st)) = Some [0x41, 0xDC00, 0]"
    using read_batch_lone_low by (simp_all add: new_istreambuf_def)
  have i: "\<not> valid_utf16 (take (wcslen [0x41, 0xDC00, 0]) [0x41, 0xDC00, 0])"
    by (simp add: wcslen_def valid_utf16_def IS_HIGH_SURROGATE_def IS_LOW_SURROGATE_def)
  from underflow_strict [OF h] h i show ?thesis by blast
qed

text \<open>
  C5 as stated fails on a batch that is a lone low surrogate: \<open>underflow\<close> raises, where
  the lenient conversion would have put the replacement character.
\<close>

theorem underflow_lenient_counterexample:
  "fst (underflow (new_istreambuf \<lparr>answers = [Delivers [0xDC00]], reads = []\<rparr>)) =
     Inl (U8ConversionError ''wide-string to utf8 conversion failed.'') \<and>
   u8narrow [0xDC00] False = Inr [0xEF, 0xBF, 0xBD]"
proof
  let ?st = "new_istreambuf \<lparr>answers = [Delivers [0xDC00]], reads = []\<rparr>"
  have rb: "fst (read_batch (m_handle_in ?st)) = Some [0xDC00, 0]"
    by (simp add: read_batch_def terminal_eval IS_HIGH_SURROGATE_def)
  have g: "egptr ?st \<le> gptr ?st" by (simp add: new_istreambuf_def)
  have "utf16_to_code_points True (take (wcslen [0xDC00, 0]) [0xDC00, 0]) = None"
    by (simp add: wcslen_def IS_HIGH_SURROGATE_def IS_LOW_SURROGATE_def)
  with underflow_converts [OF g rb]
  show "fst (underflow ?st) = Inl (U8ConversionError ''wide-string to utf8 conversion failed.'')"
    by simp
  show "u8narrow [0xDC00] False = Inr [0xEF, 0xBF, 0xBD]"
    by (simp add: u8narrow_def WideCharToMultiByte_def WC_ERR_INVALID_CHARS_def
        IS_HIGH_SURROGATE_def IS_LOW_SURROGATE_def utf8_of_code_points_def utf8_encode_def
        INT_MAX_def)
qed

text \<open>
  C9.  When the window is exhausted and the batch read of \<open>underflow\<close> reports failure,
  \<open>underflow\<close> returns \<open>eof\<close>.  When \<open>sync\<close> has text \<open>w\<close> to write and \<^verbatim>\<open>WriteConsoleW\<close>
  fails or reports fewer units written than requested, \<open>sync\<close> still returns 0 and has
  issued exactly this one write.
\<close>

theorem io_failure:
  "(egptr ist \<le> gptr ist \<and>
    \<not> fst (fst (ReadConsoleW (m_handle_in ist) (ARRAYSIZE_wideBuffer - 2))) \<longrightarrow>
      fst (underflow ist) = Inr eof) \<and>
   (released (m_unwritten_partial_bytes ost @ str ost) \<noteq> [] \<and>
    u8widen (released (m_unwritten_partial_bytes ost @ str ost)) True = Inr w \<and>
    (\<not> fst (fst (WriteConsoleW (m_handle ost) w)) \<or>
     snd (fst (WriteConsoleW (m_handle ost) w)) < length w) \<longrightarrow>
      fst (sync ost) = Inr 0 \<and>
      writes (m_handle (snd (sync ost))) = writes (m_handle ost) @ [w])"
proof (intro conjI impI)
  assume "egptr ist \<le> gptr ist \<and>
    \<not> fst (fst (ReadConsoleW (m_handle_in ist) (ARRAYSIZE_wideBuffer - 2)))"
  then show "fst (underflow ist) = Inr eof"
    using read_batch_fail [of "m_handle_in ist"] underflow_eof [of ist] by simp
next
  assume a: "released (m_unwritten_partial_bytes ost @ str ost) \<noteq> [] \<and>
    u8widen (released (m_unwritten_partial_bytes ost @ str ost)) True = Inr w \<and>
    (\<not> fst (fst (WriteConsoleW (m_handle ost) w)) \<or>
     snd (fst (WriteConsoleW (m_handle ost) w)) < length w)"
  then show "fst (sync ost) = Inr 0"
    "writes (m_handle (snd (sync ost))) = writes (m_handle ost) @ [w]"
    using sync_writes [of ost w] by simp_all
qed

theorem io_failure_witness:
  "egptr (new_istreambuf \<lparr>answers = [ReadFails], reads = []\<rparr>) \<le>
   gptr (new_istreambuf \<lparr>answers = [ReadFails], reads = []\<rparr>) \<and>
   \<not> fst (fst (ReadConsoleW (m_handle_in (new_istreambuf \<lparr>answers = [ReadFails], reads = []\<rparr>))
      (ARRAYSIZE_wideBuffer - 2))) \<and>
   fst (underflow (new_istreambuf \<lparr>answers = [ReadFails], reads = []\<rparr>)) = Inr eof \<and>
   released (m_unwritten_partial_bytes
       (sputn (new_ostreambuf \<lparr>outcomes = [WriteFails], writes = []\<rparr>) [0x41]) @
     str (sputn (new_ostreambuf \<lparr>outcomes = [WriteFails], writes = []\<rparr>) [0x41])) \<noteq> [] \<and>
   u8widen (released (m_unwritten_partial_bytes
       (sputn (new_ostreambuf \<lparr>outcomes = [WriteFails], writes = []\<rparr>) [0x41]) @
     str (sputn (new_ostreambuf \<lparr>outcomes = [WriteFails], writes = []\<rparr>) [0x41]))) True = Inr [0x41] \<and>
   \<not> fst (fst (WriteConsoleW
       (m_handle (sputn (new_ostreambuf \<lparr>outcomes = [WriteFails], writes = []\<rparr>) [0x41])) [0x41])) \<and>
   fst (sync (sputn (new_ostreambuf \<lparr>outcomes = [WriteFails], writes = []\<rparr>) [0x41])) = Inr 0 \<and>
   writes (m_handle (snd (sync
       (sputn (new_ostreambuf \<lparr>outcomes = [WriteFails], writes = []\<rparr>) [0x41])))) = [[0x41]]"
proof -
  let ?ist = "new_istreambuf \<lparr>answers = [ReadFails], reads = []\<rparr>"
  let ?ost = "sputn (new_ostreambuf \<lparr>outcomes = [WriteFails], writes = []\<rparr>) [0x41]"
  have h1: "egptr ?ist \<le> gptr ?ist \<and>
      \<not> fst (fst (ReadConsoleW (m_handle_in ?ist) (ARRAYSIZE_wideBuffer - 2)))"
    by (simp add: terminal_eval)
  have buf: "m_unwritten_partial_bytes ?ost @ str ?ost = [0x41]"
    by (simp add: sputn_def new_ostreambuf_def)
  have rel: "released [0x41 :: byte] = [0x41]"
    using released_ascii_end [of "0x41" "[]"] by simp
  have wid: "u8widen [0x41] True = Inr [0x41]"
    by (simp add: u8widen_def MultiByteToWideChar_def MB_ERR_INVALID_CHARS_def
        utf16_of_code_points_def utf16_encode_def INT_MAX_def)
  have h2: "released (m_unwritten_partial_bytes ?ost @ str ?ost) \<noteq> [] \<and>
      u8widen (released (m_unwritten_partial_bytes ?ost @ str ?ost)) True = Inr [0x41] \<and>
      \<not> fst (fst (WriteConsoleW (m_handle ?ost) [0x41]))"
    unfolding buf rel using wid by (simp add: sputn_def terminal_eval)
  have w0: "writes (m_handle ?ost) @ [[0x41]] = [[0x41]]"
    by (simp add: sputn_def new_ostreambuf_def)
  from io_failure [of ?ist ?ost "[0x41]"] h1 h2
  have "fst (underflow ?ist) = Inr eof" "fst (sync ?ost) = Inr 0"
    "writes (m_handle (snd (sync ?ost))) = writes (m_handle ?ost) @ [[0x41]]"
    by blast+
  then have "fst (underflow ?ist) = Inr eof" "fst (sync ?ost) = Inr 0"
    "writes (m_handle (snd (sync ?ost))) = [[0x41]]"
    unfolding w0 by simp_all
  with h1 h2 show ?thesis by blast
qed

end
